theory Spec2Isabelle
  imports Complex_Main "HOL-Library.Char_ord" "HOL-Library.Multiset" "HOL-Library.Sublist"
begin

section \<open>Data model\<close>

text \<open>
  The engine lives in \<^verbatim>\<open>ibragimov.imil/F0/huffmanAlgorithm.cpp\<close>. Texts, bit sequences and
  codewords are all \<^verbatim>\<open>std::string\<close>, hence \<^typ>\<open>string\<close> here; a bit is one of the
  characters \<^verbatim>\<open>'0'\<close> and \<^verbatim>\<open>'1'\<close>. Comparison of \<^verbatim>\<open>char\<close> is the order of
  \<^typ>\<open>char\<close> by byte value, as for an unsigned \<^verbatim>\<open>char\<close>; where \<^verbatim>\<open>char\<close> is signed the
  bytes from 128 on sort first instead. The concrete texts below are ASCII, where the
  two orders agree.
  \<^verbatim>\<open>size_t\<close> weights and code lengths are \<^typ>\<open>nat\<close>: every weight the engine computes
  from a text is at most the length of that text, so no addition wraps.

  The two exits of the code that are not a normal return are values of \<open>error\<close>:
  the \<^verbatim>\<open>std::invalid_argument\<close> thrown by \<^verbatim>\<open>replaceSubstring\<close>, and undefined behaviour
  (reading \<^verbatim>\<open>back()\<close> or \<^verbatim>\<open>*cbegin()\<close> of an empty container, dereferencing a null
  \<^verbatim>\<open>unique_ptr\<close>).
\<close>

datatype error = InvalidArgument | UndefinedBehaviour

text \<open>
  \<^verbatim>\<open>huffmanNode.hpp\<close> is not among the sources. The algorithm reads a node through
  \<^verbatim>\<open>pair.first\<close> (the symbol), \<^verbatim>\<open>pair.second\<close> (the weight) and the two owning pointers
  \<^verbatim>\<open>left\<close> and \<^verbatim>\<open>right\<close>, which may be null; the two constructors are
  \<^verbatim>\<open>Node(symbol, weight)\<close> (both children null) and \<^verbatim>\<open>Node(symbol, weight, left, right)\<close>.
\<close>

datatype node = Node (symbol: char) (weight: nat) (left: "node option") (right: "node option")

text \<open>
  A \<^verbatim>\<open>std::multimap< size_t, char >\<close> is the list of its pairs in iteration order: ascending
  key, and insertion order among equal keys (\<^verbatim>\<open>insert\<close> places a pair after every pair whose
  key is not greater).
\<close>

type_synonym multimap = "(nat \<times> char) list"

fun multimap_insert :: "nat \<times> char \<Rightarrow> multimap \<Rightarrow> multimap" where
  "multimap_insert p [] = [p]"
| "multimap_insert p (q # qs) =
     (if fst p < fst q then p # q # qs else q # multimap_insert p qs)"

text \<open>
  A \<^verbatim>\<open>std::map< char, std::string >\<close> is the list of its pairs in iteration order
  (ascending, distinct keys); \<open>map_assign\<close> is \<^verbatim>\<open>m[k] = v\<close>.
\<close>

type_synonym encodings = "(char \<times> string) list"

fun map_assign :: "char \<Rightarrow> string \<Rightarrow> encodings \<Rightarrow> encodings" where
  "map_assign k v [] = [(k, v)]"
| "map_assign k v (p # ps) =
     (if k < fst p then (k, v) # p # ps
      else if k = fst p then (k, v) # ps
      else p # map_assign k v ps)"

section \<open>Frequency analysis\<close>

text \<open>
  \<^verbatim>\<open>createFrequencyTable\<close>: sort a copy of the text, \<^verbatim>\<open>std::unique_copy\<close> it into the
  alphabet, and insert \<open>(count, symbol)\<close> for each symbol of the alphabet in turn.
\<close>

definition createFrequencyTable :: "string \<Rightarrow> multimap" where
  "createFrequencyTable text =
     (let copiedText = sort text;
          alphabet = remdups_adj copiedText
      in foldl (\<lambda>frequencyTable c. multimap_insert (count_list copiedText c, c) frequencyTable)
           [] alphabet)"

section \<open>Tree construction\<close>

text \<open>
  \<^verbatim>\<open>std::min_element(first, last, comp)\<close> as every standard library implements it: the
  candidate starts at the first element, and a later element replaces it whenever
  \<open>cmp element candidate\<close> holds. The result is the position of the candidate, or no
  position (the end iterator) for an empty range.
\<close>

fun min_element_from :: "('a \<Rightarrow> 'a \<Rightarrow> bool) \<Rightarrow> 'a \<Rightarrow> nat \<Rightarrow> nat \<Rightarrow> 'a list \<Rightarrow> nat" where
  "min_element_from cmp smallest si i [] = si"
| "min_element_from cmp smallest si i (x # xs) =
     (if cmp x smallest then min_element_from cmp x i (Suc i) xs
      else min_element_from cmp smallest si (Suc i) xs)"

definition min_element :: "('a \<Rightarrow> 'a \<Rightarrow> bool) \<Rightarrow> 'a list \<Rightarrow> nat option" where
  "min_element cmp xs =
     (case xs of [] \<Rightarrow> None | x # rest \<Rightarrow> Some (min_element_from cmp x 0 1 rest))"

definition isMinWeight :: "node \<Rightarrow> node \<Rightarrow> bool" where
  "isMinWeight lhs rhs = (weight lhs \<le> weight rhs)"

text \<open>
  \<^verbatim>\<open>extractMinimum\<close> moves the node out of the position found and then erases
  \<^verbatim>\<open>std::remove(begin, end, *minIter)\<close>. The moved-from pointer is null and every other
  pointer of the list is not, so \<^verbatim>\<open>std::remove\<close> finds exactly that position, shifts the
  later nodes down by one and the list loses its last slot: the position is erased and
  the order of the other nodes is kept. On an empty list the result is the null pointer.
\<close>

definition remove_at :: "nat \<Rightarrow> 'a list \<Rightarrow> 'a list" where
  "remove_at i xs = take i xs @ drop (Suc i) xs"

definition extractMinimum :: "node list \<Rightarrow> node option \<times> node list" where
  "extractMinimum list =
     (case min_element isMinWeight list of
        None \<Rightarrow> (None, list)
      | Some i \<Rightarrow> (Some (list ! i), remove_at i list))"

lemma min_element_from_bound:
  "si < i \<Longrightarrow> min_element_from cmp smallest si i xs < i + length xs"
proof (induction xs arbitrary: smallest si i)
  case Nil
  then show ?case by simp
next
  case (Cons x xs)
  have "min_element_from cmp x i (Suc i) xs < Suc i + length xs"
    by (rule Cons.IH) simp
  moreover have "min_element_from cmp smallest si (Suc i) xs < Suc i + length xs"
    by (rule Cons.IH) (use Cons.prems in simp)
  ultimately show ?case by simp
qed

lemma min_element_bound: "min_element cmp xs = Some i \<Longrightarrow> i < length xs"
  using min_element_from_bound [of 0 1 cmp] by (auto simp: min_element_def split: list.splits)

lemma extractMinimum_length:
  "extractMinimum xs = (Some n, ys) \<Longrightarrow> Suc (length ys) = length xs"
  by (auto simp: extractMinimum_def remove_at_def split: option.splits dest!: min_element_bound)

text \<open>
  The merge loop of \<^verbatim>\<open>createHuffmanTree\<close>. \<^verbatim>\<open>left->pair\<close> on a null pointer is undefined
  behaviour.
\<close>

function createHuffmanTree_loop :: "node list \<Rightarrow> error + node list" where
  "createHuffmanTree_loop weights =
     (if 1 < length weights then
        (case extractMinimum weights of
           (None, weights1) \<Rightarrow> Inl UndefinedBehaviour
         | (Some l, weights1) \<Rightarrow>
             (case extractMinimum weights1 of
                (None, weights2) \<Rightarrow> Inl UndefinedBehaviour
              | (Some r, weights2) \<Rightarrow>
                  createHuffmanTree_loop
                    (weights2 @ [Node CHR '' '' (weight l + weight r) (Some l) (Some r)])))
      else Inr weights)"
  by pat_completeness auto
termination
proof (relation "measure length", goal_cases)
  case 1
  show ?case by simp
next
  case (2 weights x weights1 l y weights2 r)
  then have "Suc (length weights1) = length weights" "Suc (length weights2) = length weights1"
    using extractMinimum_length [of weights l weights1] extractMinimum_length [of weights1 r weights2]
    by simp_all
  then show ?case by simp
qed

declare createHuffmanTree_loop.simps [simp del]

text \<open>\<^verbatim>\<open>weights.back()\<close> of an empty list is undefined behaviour.\<close>

definition createHuffmanTree :: "multimap \<Rightarrow> error + node" where
  "createHuffmanTree frequencyTable =
     (case createHuffmanTree_loop (map (\<lambda>pair. Node (snd pair) (fst pair) None None) frequencyTable) of
        Inl e \<Rightarrow> Inl e
      | Inr weights \<Rightarrow> (if weights = [] then Inl UndefinedBehaviour else Inr (last weights)))"

section \<open>Code lengths\<close>

definition children :: "node \<Rightarrow> node list" where
  "children current =
     (case left current of None \<Rightarrow> [] | Some l \<Rightarrow> [l]) @
     (case right current of None \<Rightarrow> [] | Some r \<Rightarrow> [r])"

text \<open>
  The inner loop of \<^verbatim>\<open>createCodesLengthTable\<close> pops \<open>numberOfNodes\<close> nodes from the front
  of the queue and pushes their children at the back; \<^verbatim>\<open>front()\<close> of an empty queue is
  undefined behaviour.
\<close>

fun visit_level :: "nat \<Rightarrow> nat \<Rightarrow> node list \<Rightarrow> multimap \<Rightarrow> error + node list \<times> multimap" where
  "visit_level height 0 queue lengthsTable = Inr (queue, lengthsTable)"
| "visit_level height (Suc n) [] lengthsTable = Inl UndefinedBehaviour"
| "visit_level height (Suc n) (current # queue) lengthsTable =
     visit_level height n (queue @ children current)
       (if left current = None \<and> right current = None
        then multimap_insert (height, symbol current) lengthsTable
        else lengthsTable)"

lemma visit_level_whole:
  "visit_level h (length q) (q @ q2) t =
     Inr (q2 @ concat (map children q),
          foldl (\<lambda>t n. if left n = None \<and> right n = None
                          then multimap_insert (h, symbol n) t else t) t q)"
  by (induction q arbitrary: q2 t) simp_all

lemma size_children: "sum_list (map size (children n)) < size n"
  by (cases n) (auto simp: children_def split: option.splits)

lemma size_children_level:
  "q \<noteq> [] \<Longrightarrow> sum_list (map size (concat (map children q))) < sum_list (map size q)"
proof (induction q)
  case Nil
  then show ?case by simp
next
  case (Cons n q)
  show ?case
  proof (cases "q = []")
    case True
    then show ?thesis using size_children [of n] by simp
  next
    case False
    then show ?thesis using Cons.IH size_children [of n] by simp
  qed
qed

function visit_levels :: "node list \<Rightarrow> nat \<Rightarrow> multimap \<Rightarrow> error + multimap" where
  "visit_levels queue height lengthsTable =
     (if queue \<noteq> [] then
        (case visit_level height (length queue) queue lengthsTable of
           Inl e \<Rightarrow> Inl e
         | Inr (queue', lengthsTable') \<Rightarrow> visit_levels queue' (Suc height) lengthsTable')
      else Inr lengthsTable)"
  by pat_completeness auto
termination
proof (relation "measure (\<lambda>(queue, height, lengthsTable). sum_list (map size queue))", goal_cases)
  case 1
  show ?case by simp
next
  case (2 queue height lengthsTable x2 queue' lengthsTable')
  then have "queue' = concat (map children queue)"
    using visit_level_whole [of height queue "[]" lengthsTable] by simp
  then show ?case using 2 size_children_level [of queue] by simp
qed

declare visit_levels.simps [simp del]

definition createCodesLengthTable :: "node \<Rightarrow> error + multimap" where
  "createCodesLengthTable huffmanTree = visit_levels [huffmanTree] 0 []"

section \<open>Canonical code assignment\<close>

definition flip :: "char \<Rightarrow> char" where
  "flip c = (if c = CHR ''0'' then CHR ''1'' else CHR ''0'')"

text \<open>
  \<^verbatim>\<open>increment\<close> works on the reversed string: \<open>lastFalse\<close> is the distance from
  \<^verbatim>\<open>rbegin\<close> of the first \<^verbatim>\<open>'0'\<close> (the length when there is none), and the characters
  before \<open>flipUpTo\<close> are flipped.
\<close>

definition increment :: "string \<Rightarrow> string" where
  "increment code =
     (let r = rev code;
          lastFalse = length (takeWhile (\<lambda>c. c \<noteq> CHR ''0'') r);
          flipUpTo = (if lastFalse \<noteq> length r then Suc lastFalse else length r)
      in rev (map flip (take flipUpTo r) @ drop flipUpTo r))"

text \<open>
  The loop of \<^verbatim>\<open>detail::createEncodingTable\<close> over the pairs after the first; \<open>prev\<close> is
  the key of the previous pair. The keys of a multimap ascend, so the \<^verbatim>\<open>size_t\<close>
  difference never wraps.
\<close>

fun assign_codes :: "string \<Rightarrow> nat \<Rightarrow> multimap \<Rightarrow> encodings \<Rightarrow> encodings" where
  "assign_codes code prev [] encodingTable = encodingTable"
| "assign_codes code prev (currentPair # rest) encodingTable =
     (let code' = increment code @ replicate (fst currentPair - prev) CHR ''0''
      in assign_codes code' (fst currentPair) rest (map_assign (snd currentPair) code' encodingTable))"

text \<open>Reading \<^verbatim>\<open>*lengthsTable.cbegin()\<close> of an empty table is undefined behaviour.\<close>

definition detail_createEncodingTable :: "multimap \<Rightarrow> error + encodings" where
  "detail_createEncodingTable lengthsTable =
     (case lengthsTable of
        [] \<Rightarrow> Inl UndefinedBehaviour
      | currentPair # rest \<Rightarrow>
          (let code = replicate (fst currentPair) CHR ''0''
           in Inr (assign_codes code (fst currentPair) rest (map_assign (snd currentPair) code []))))"

definition createEncodingTable :: "string \<Rightarrow> error + encodings" where
  "createEncodingTable text =
     (case createHuffmanTree (createFrequencyTable text) of
        Inl e \<Rightarrow> Inl e
      | Inr huffmanTree \<Rightarrow>
          (case createCodesLengthTable huffmanTree of
             Inl e \<Rightarrow> Inl e
           | Inr table \<Rightarrow> detail_createEncodingTable table))"

section \<open>Encoding\<close>

text \<open>
  \<^verbatim>\<open>str.find(toReplace, pos)\<close>: the least position from \<open>pos\<close> on at which \<open>toReplace\<close>
  occurs, \<open>None\<close> for \<^verbatim>\<open>npos\<close>.
\<close>

function str_find :: "string \<Rightarrow> string \<Rightarrow> nat \<Rightarrow> nat option" where
  "str_find str t pos =
     (if length str < pos + length t then None
      else if take (length t) (drop pos str) = t then Some pos
      else str_find str t (Suc pos))"
  by pat_completeness auto
termination
proof (relation "measure (\<lambda>(str, t, pos). length str - pos)", goal_cases)
  case 1
  show ?case by simp
next
  case (2 str t pos)
  then have "pos \<noteq> length str" by auto
  with 2 show ?case by simp
qed

declare str_find.simps [simp del]

text \<open>\<^verbatim>\<open>str.replace(pos, n, replaceWith)\<close>.\<close>

definition str_replace :: "string \<Rightarrow> nat \<Rightarrow> nat \<Rightarrow> string \<Rightarrow> string" where
  "str_replace str pos n replaceWith = take pos str @ replaceWith @ drop (pos + n) str"

text \<open>
  One pass through the body of the \<^verbatim>\<open>while\<close> loop of \<^verbatim>\<open>replaceSubstring\<close>, entered with a
  position \<open>pos\<close> that is not \<^verbatim>\<open>npos\<close>: replace there, then search again from \<open>pos\<close>
  itself, not from behind the replacement. The loop does not end when \<open>replaceWith\<close>
  contains \<open>toReplace\<close>; not returning is the value \<open>None\<close>.
\<close>

partial_function (option) replaceSubstring_loop :: "string \<Rightarrow> string \<Rightarrow> string \<Rightarrow> nat \<Rightarrow> string option" where
  "replaceSubstring_loop str toReplace replaceWith pos =
     (case str_find (str_replace str pos (length toReplace) replaceWith) toReplace pos of
        None \<Rightarrow> Some (str_replace str pos (length toReplace) replaceWith)
      | Some pos' \<Rightarrow>
          replaceSubstring_loop (str_replace str pos (length toReplace) replaceWith)
            toReplace replaceWith pos')"

declare replaceSubstring_loop.simps [code]

definition replaceSubstring :: "string \<Rightarrow> string \<Rightarrow> string \<Rightarrow> (error + string) option" where
  "replaceSubstring str toReplace replaceWith =
     (if toReplace = [] \<or> str = [] \<or> replaceWith = [] then Some (Inl InvalidArgument)
      else (case str_find str toReplace 0 of
              None \<Rightarrow> Some (Inr str)
            | Some pos \<Rightarrow> map_option Inr (replaceSubstring_loop str toReplace replaceWith pos)))"

fun encode_loop :: "string \<Rightarrow> encodings \<Rightarrow> (error + string) option" where
  "encode_loop encodedText [] = Some (Inr encodedText)"
| "encode_loop encodedText (pair # rest) =
     (case replaceSubstring encodedText [fst pair] (snd pair) of
        None \<Rightarrow> None
      | Some (Inl e) \<Rightarrow> Some (Inl e)
      | Some (Inr encodedText') \<Rightarrow> encode_loop encodedText' rest)"

definition encode :: "string \<Rightarrow> encodings \<Rightarrow> (error + string) option" where
  "encode text encodings = encode_loop text encodings"

section \<open>Decoding\<close>

definition copyEncodings :: "encodings \<Rightarrow> (string \<rightharpoonup> char)" where
  "copyEncodings encodings = foldl (\<lambda>copiedEncodings pair. copiedEncodings(snd pair \<mapsto> fst pair)) Map.empty encodings"

text \<open>The loop of \<^verbatim>\<open>decode\<close> over the bits, with the state \<open>(decodedText, code)\<close>.\<close>

fun decode_loop :: "(string \<rightharpoonup> char) \<Rightarrow> string \<Rightarrow> string \<Rightarrow> string \<Rightarrow> string \<times> string" where
  "decode_loop copiedEncodings [] decodedText code = (decodedText, code)"
| "decode_loop copiedEncodings (b # text) decodedText code =
     (case copiedEncodings (code @ [b]) of
        Some c \<Rightarrow> decode_loop copiedEncodings text (decodedText @ [c]) []
      | None \<Rightarrow> decode_loop copiedEncodings text decodedText (code @ [b]))"

text \<open>\<^verbatim>\<open>decode\<close> returns \<open>decodedText\<close>; what is left in \<open>code\<close> is discarded.\<close>

definition decode :: "string \<Rightarrow> encodings \<Rightarrow> string" where
  "decode text encodings = fst (decode_loop (copyEncodings encodings) text [] [])"

section \<open>Predicates of the statements\<close>

text \<open>
  \<open>last_minimum xs i\<close>: position \<open>i\<close> holds a node of least weight in \<open>xs\<close>, and no
  later position holds a node of that weight.
\<close>

definition last_minimum :: "node list \<Rightarrow> nat \<Rightarrow> bool" where
  "last_minimum xs i =
     (i < length xs \<and>
      (\<forall>j \<in> {..<length xs}. weight (xs ! i) \<le> weight (xs ! j)) \<and>
      (\<forall>j \<in> {..<length xs}. weight (xs ! j) = weight (xs ! i) \<longrightarrow> j \<le> i))"

text \<open>\<open>sums_ok n\<close>: below \<open>n\<close>, a node with two children weighs what its children weigh together.\<close>

fun sums_ok :: "node \<Rightarrow> bool" where
  "sums_ok (Node c w l r) =
     ((case l of None \<Rightarrow> True | Some a \<Rightarrow>
         (case r of None \<Rightarrow> True | Some b \<Rightarrow> w = weight a + weight b)) \<and>
      (case l of None \<Rightarrow> True | Some a \<Rightarrow> sums_ok a) \<and>
      (case r of None \<Rightarrow> True | Some b \<Rightarrow> sums_ok b))"

text \<open>\<open>full n\<close>: below \<open>n\<close>, every node has both children or none.\<close>

fun full :: "node \<Rightarrow> bool" where
  "full (Node c w l r) =
     (case l of
        None \<Rightarrow> r = None
      | Some a \<Rightarrow> (case r of None \<Rightarrow> False | Some b \<Rightarrow> full a \<and> full b))"

text \<open>The symbols of the childless nodes below a node, from left to right.\<close>

fun leaves :: "node \<Rightarrow> string" where
  "leaves (Node c w l r) =
     (if l = None \<and> r = None then [c]
      else (case l of None \<Rightarrow> [] | Some a \<Rightarrow> leaves a) @ (case r of None \<Rightarrow> [] | Some b \<Rightarrow> leaves b))"

definition forest_ok :: "node list \<Rightarrow> bool" where
  "forest_ok ws = (\<forall>n \<in> set ws. full n \<and> sums_ok n)"

text \<open>
  What a single pass over the text does with a table: a symbol that has a codeword becomes
  its codeword, any other symbol stays.
\<close>

definition substitute :: "encodings \<Rightarrow> char \<Rightarrow> string" where
  "substitute T c = (case map_of T c of None \<Rightarrow> [c] | Some w \<Rightarrow> w)"

text \<open>Every occurrence of the character \<open>k\<close> in \<open>str\<close> replaced by \<open>w\<close>.\<close>

definition rep :: "char \<Rightarrow> string \<Rightarrow> string \<Rightarrow> string" where
  "rep k w str = concat (map (\<lambda>c. if c = k then w else [c]) str)"

text \<open>No codeword of the table is a prefix of the codeword of another symbol.\<close>

definition prefix_free :: "encodings \<Rightarrow> bool" where
  "prefix_free T = (\<forall>p \<in> set T. \<forall>q \<in> set T. fst p \<noteq> fst q \<longrightarrow> \<not> prefix (snd p) (snd q))"

text \<open>A node without children, and the table entries a level of the traversal adds.\<close>

definition is_leaf :: "node \<Rightarrow> bool" where
  "is_leaf n = (left n = None \<and> right n = None)"

definition level_entries :: "nat \<Rightarrow> node list \<Rightarrow> multimap" where
  "level_entries h q = map (\<lambda>n. (h, symbol n)) (filter is_leaf q)"

text \<open>The Kraft sum of a table of code lengths.\<close>

definition kraft :: "multimap \<Rightarrow> real" where
  "kraft t = (\<Sum>p\<leftarrow>t. (1 / 2) ^ fst p)"

text \<open>
  A codeword read as a binary number, most significant digit first; as \<^verbatim>\<open>increment\<close>
  does, every character other than \<^verbatim>\<open>'0'\<close> counts as a one. \<open>code_pos\<close> is that number
  as a fraction of \<open>2 ^ length\<close>: the left end of the interval of the codeword in \<open>[0, 1)\<close>.
\<close>

definition bval :: "string \<Rightarrow> nat" where
  "bval c = foldl (\<lambda>a b. 2 * a + (if b = CHR ''0'' then 0 else 1)) 0 c"

definition code_pos :: "string \<Rightarrow> real" where
  "code_pos c = real (bval c) / 2 ^ length c"

text \<open>
  The pairs that the loop of \<^verbatim>\<open>detail::createEncodingTable\<close> assigns, in the order in which
  it assigns them.
\<close>

fun codes_list :: "string \<Rightarrow> nat \<Rightarrow> multimap \<Rightarrow> encodings" where
  "codes_list code prev [] = []"
| "codes_list code prev (currentPair # rest) =
     (let code' = increment code @ replicate (fst currentPair - prev) CHR ''0''
      in (snd currentPair, code') # codes_list code' (fst currentPair) rest)"

text \<open>The interval of \<open>p\<close>'s codeword ends where that of \<open>q\<close> starts or earlier, and is no shorter.\<close>

definition before :: "char \<times> string \<Rightarrow> char \<times> string \<Rightarrow> bool" where
  "before p q = (code_pos (snd p) + (1 / 2) ^ length (snd p) \<le> code_pos (snd q) \<and>
                 length (snd p) \<le> length (snd q))"

definition binary :: "string \<Rightarrow> bool" where
  "binary w = (set w \<subseteq> {CHR ''0'', CHR ''1''})"

section \<open>Properties of the frequency table\<close>

lemma sort_cong_mset: "mset xs = mset ys \<Longrightarrow> sort xs = sort (ys :: char list)"
  by (metis sorted_list_of_multiset_mset)

text \<open>
  C9: the frequency table of a text and of any permutation of it are the same table.
\<close>

theorem createFrequencyTable_permutation:
  "mset s = mset s' \<Longrightarrow> createFrequencyTable s = createFrequencyTable s'"
  unfolding createFrequencyTable_def using sort_cong_mset [of s s'] by simp

theorem createFrequencyTable_permutation_witness:
  "mset ''abca'' = mset ''caab'' \<and> createFrequencyTable ''abca'' = createFrequencyTable ''caab''"
proof -
  have h: "mset ''abca'' = mset ''caab''" by simp
  show ?thesis using h createFrequencyTable_permutation [OF h] by simp
qed

lemma mset_multimap_insert: "mset (multimap_insert p t) = add_mset p (mset t)"
  by (induction t) simp_all

lemma mset_foldl_multimap_insert:
  "mset (foldl (\<lambda>t c. multimap_insert (f c) t) t0 cs) = mset t0 + mset (map f cs)"
  by (induction cs arbitrary: t0) (simp_all add: mset_multimap_insert)

lemma sorted_distinct_adj:
  "sorted xs \<Longrightarrow> distinct_adj xs \<Longrightarrow> distinct (xs :: 'a :: linorder list)"
proof (induction xs)
  case Nil
  then show ?case by simp
next
  case (Cons x xs)
  show ?case
  proof (cases xs)
    case Nil
    then show ?thesis by simp
  next
    case (Cons y ys)
    have "x < y" using Cons.prems Cons by auto
    moreover have "\<forall>z \<in> set xs. y \<le> z" using Cons.prems Cons by auto
    ultimately have "x \<notin> set xs" by auto
    moreover have "distinct xs" using Cons.IH Cons.prems Cons by auto
    ultimately show ?thesis by simp
  qed
qed

lemma distinct_alphabet: "distinct (remdups_adj (sort (s :: 'a :: linorder list)))"
  by (rule sorted_distinct_adj) simp_all

lemma mset_createFrequencyTable:
  "mset (createFrequencyTable s) =
     mset (map (\<lambda>c. (count_list (sort s) c, c)) (remdups_adj (sort s)))"
  by (simp add: createFrequencyTable_def Let_def mset_foldl_multimap_insert)

lemma symbols_createFrequencyTable:
  "mset (map snd (createFrequencyTable s)) = mset (remdups_adj (sort s))"
proof -
  have "mset (map snd (createFrequencyTable s)) = image_mset snd (mset (createFrequencyTable s))"
    by simp
  also have "\<dots> = mset (remdups_adj (sort s))"
    by (simp add: mset_createFrequencyTable image_mset.compositionality comp_def)
  finally show ?thesis .
qed

lemma distinct_symbols_createFrequencyTable: "distinct (map snd (createFrequencyTable s))"
proof -
  have "distinct (remdups_adj (sort s))"
    by (rule distinct_alphabet)
  then show ?thesis
    using symbols_createFrequencyTable [of s] by (metis mset_eq_imp_distinct_iff)
qed

lemma set_symbols_createFrequencyTable: "set (map snd (createFrequencyTable s)) = set s"
  using symbols_createFrequencyTable [of s] by (metis mset_eq_setD remdups_adj_set set_sort)

lemma sum_createFrequencyTable: "sum_list (map fst (createFrequencyTable s)) = length s"
proof -
  let ?a = "remdups_adj (sort s)"
  have d: "distinct ?a" by (rule distinct_alphabet)
  have "sum_list (map fst (createFrequencyTable s)) = sum_mset (image_mset fst (mset (createFrequencyTable s)))"
    by (metis mset_map sum_mset_sum_list)
  also have "\<dots> = sum_mset (image_mset (count_list (sort s)) (mset ?a))"
    by (simp add: mset_createFrequencyTable image_mset.compositionality comp_def)
  also have "\<dots> = sum_list (map (count_list (sort s)) ?a)"
    by (metis mset_map sum_mset_sum_list)
  also have "\<dots> = sum (count_list (sort s)) (set ?a)"
    using d by (simp add: sum_list_distinct_conv_sum_set)
  also have "\<dots> = length (sort s)"
    by (rule sum_count_set) simp_all
  finally show ?thesis by simp
qed

lemma createFrequencyTable_nonempty: "s \<noteq> [] \<Longrightarrow> createFrequencyTable s \<noteq> []"
  using set_symbols_createFrequencyTable [of s] by auto

section \<open>Properties of the tree construction\<close>

lemma min_element_from_last:
  assumes "length pre = i" "si < i" "pre ! si = s"
    "\<forall>j<i. weight s \<le> weight (pre ! j)"
    "\<forall>j<i. weight (pre ! j) = weight s \<longrightarrow> j \<le> si"
  shows "last_minimum (pre @ xs) (min_element_from isMinWeight s si i xs)"
  using assms
proof (induction xs arbitrary: pre i si s)
  case Nil
  then show ?case by (auto simp: last_minimum_def)
next
  case (Cons x xs)
  show ?case
  proof (cases "weight x \<le> weight s")
    case True
    have "last_minimum ((pre @ [x]) @ xs) (min_element_from isMinWeight x i (Suc i) xs)"
    proof (rule Cons.IH)
      show "length (pre @ [x]) = Suc i" using Cons.prems by simp
      show "i < Suc i" by simp
      show "(pre @ [x]) ! i = x" using Cons.prems by (simp add: nth_append)
      show "\<forall>j<Suc i. weight x \<le> weight ((pre @ [x]) ! j)"
        using Cons.prems True by (auto simp: nth_append less_Suc_eq intro: order_trans)
      show "\<forall>j<Suc i. weight ((pre @ [x]) ! j) = weight x \<longrightarrow> j \<le> i"
        by auto
    qed
    moreover have "isMinWeight x s" using True by (simp add: isMinWeight_def)
    ultimately show ?thesis by simp
  next
    case False
    have "last_minimum ((pre @ [x]) @ xs) (min_element_from isMinWeight s si (Suc i) xs)"
    proof (rule Cons.IH)
      show "length (pre @ [x]) = Suc i" using Cons.prems by simp
      show "si < Suc i" using Cons.prems by simp
      show "(pre @ [x]) ! si = s" using Cons.prems by (simp add: nth_append)
      show "\<forall>j<Suc i. weight s \<le> weight ((pre @ [x]) ! j)"
        using Cons.prems False by (auto simp: nth_append less_Suc_eq)
      show "\<forall>j<Suc i. weight ((pre @ [x]) ! j) = weight s \<longrightarrow> j \<le> si"
        using Cons.prems False by (auto simp: nth_append less_Suc_eq)
    qed
    moreover have "\<not> isMinWeight x s" using False by (simp add: isMinWeight_def)
    ultimately show ?thesis by simp
  qed
qed

lemma min_element_last:
  "xs \<noteq> [] \<Longrightarrow> \<exists>i. min_element isMinWeight xs = Some i \<and> last_minimum xs i"
proof (cases xs)
  case Nil
  assume "xs \<noteq> []"
  with Nil show ?thesis by simp
next
  case (Cons x rest)
  have "last_minimum ([x] @ rest) (min_element_from isMinWeight x 0 1 rest)"
    by (rule min_element_from_last) simp_all
  then show ?thesis using Cons by (simp add: min_element_def)
qed

lemma extractMinimum_last:
  "xs \<noteq> [] \<Longrightarrow>
     \<exists>i. last_minimum xs i \<and> extractMinimum xs = (Some (xs ! i), remove_at i xs)"
  using min_element_last [of xs] by (auto simp: extractMinimum_def remove_at_def)

lemma length_remove_at: "i < length xs \<Longrightarrow> Suc (length (remove_at i xs)) = length xs"
  by (auto simp: remove_at_def)

lemma mset_remove_at: "i < length xs \<Longrightarrow> add_mset (xs ! i) (mset (remove_at i xs)) = mset xs"
  unfolding remove_at_def
  by (metis Cons_nth_drop_Suc append_take_drop_id mset.simps(2) mset_append union_mset_add_mset_right)

lemma merge_step:
  assumes "1 < length ws"
  shows "\<exists>i j. last_minimum ws i \<and> extractMinimum ws = (Some (ws ! i), remove_at i ws) \<and>
           last_minimum (remove_at i ws) j \<and>
           extractMinimum (remove_at i ws) = (Some (remove_at i ws ! j), remove_at j (remove_at i ws)) \<and>
           createHuffmanTree_loop ws =
             createHuffmanTree_loop
               (remove_at j (remove_at i ws) @
                [Node CHR '' '' (weight (ws ! i) + weight (remove_at i ws ! j))
                   (Some (ws ! i)) (Some (remove_at i ws ! j))])"
proof -
  from assms have "ws \<noteq> []" by auto
  then obtain i where i: "last_minimum ws i" "extractMinimum ws = (Some (ws ! i), remove_at i ws)"
    using extractMinimum_last by blast
  then have "Suc (length (remove_at i ws)) = length ws"
    by (simp add: length_remove_at last_minimum_def)
  with assms have "remove_at i ws \<noteq> []" by auto
  then obtain j where j: "last_minimum (remove_at i ws) j"
    "extractMinimum (remove_at i ws) = (Some (remove_at i ws ! j), remove_at j (remove_at i ws))"
    using extractMinimum_last by blast
  have "createHuffmanTree_loop ws =
             createHuffmanTree_loop
               (remove_at j (remove_at i ws) @
                [Node CHR '' '' (weight (ws ! i) + weight (remove_at i ws ! j))
                   (Some (ws ! i)) (Some (remove_at i ws ! j))])"
    using assms i(2) j(2) by (subst createHuffmanTree_loop.simps) simp
  with i j show ?thesis by blast
qed

lemma createHuffmanTree_loop_base: "length ws \<le> 1 \<Longrightarrow> createHuffmanTree_loop ws = Inr ws"
  by (subst createHuffmanTree_loop.simps) simp

lemma merge_step_mset:
  assumes "1 < length ws"
  shows "\<exists>l r ws2. mset ws = add_mset l (add_mset r (mset ws2)) \<and>
           createHuffmanTree_loop ws =
             createHuffmanTree_loop (ws2 @ [Node CHR '' '' (weight l + weight r) (Some l) (Some r)])"
proof -
  from merge_step [OF assms] obtain i j where
    i: "last_minimum ws i" and j: "last_minimum (remove_at i ws) j" and
    e: "createHuffmanTree_loop ws =
             createHuffmanTree_loop
               (remove_at j (remove_at i ws) @
                [Node CHR '' '' (weight (ws ! i) + weight (remove_at i ws ! j))
                   (Some (ws ! i)) (Some (remove_at i ws ! j))])"
    by blast
  have "mset ws = add_mset (ws ! i) (mset (remove_at i ws))"
    using i by (simp add: mset_remove_at last_minimum_def)
  also have "mset (remove_at i ws) = add_mset (remove_at i ws ! j) (mset (remove_at j (remove_at i ws)))"
    using j by (simp add: mset_remove_at last_minimum_def)
  finally show ?thesis using e by blast
qed

lemma createHuffmanTree_loop_invariant:
  "ws \<noteq> [] \<Longrightarrow> forest_ok ws \<Longrightarrow>
     \<exists>root. createHuffmanTree_loop ws = Inr [root] \<and> full root \<and> sums_ok root \<and>
        weight root = sum_list (map weight ws) \<and>
        mset (leaves root) = (\<Sum>n \<in># mset ws. mset (leaves n))"
proof (induction "length ws" arbitrary: ws rule: less_induct)
  case less
  show ?case
  proof (cases "1 < length ws")
    case False
    with less.prems obtain root where ws: "ws = [root]"
      by (cases ws) auto
    then show ?thesis using less.prems by (simp add: createHuffmanTree_loop_base forest_ok_def)
  next
    case True
    from merge_step_mset [OF True] obtain l r ws2 where
      m: "mset ws = add_mset l (add_mset r (mset ws2))" and
      e: "createHuffmanTree_loop ws =
            createHuffmanTree_loop (ws2 @ [Node CHR '' '' (weight l + weight r) (Some l) (Some r)])"
      by blast
    let ?n = "Node CHR '' '' (weight l + weight r) (Some l) (Some r)"
    let ?ws' = "ws2 @ [?n]"
    have len: "length ws = Suc (Suc (length ws2))"
      using m by (metis size_mset size_add_mset)
    have sub: "set ws = insert l (insert r (set ws2))"
      using m by (metis set_mset_add_mset_insert set_mset_mset)
    have ok: "forest_ok ?ws'"
      using less.prems(2) sub by (auto simp: forest_ok_def)
    have "length ?ws' < length ws" using len by simp
    from less.hyps [OF this _ ok] obtain root where
      r: "createHuffmanTree_loop ?ws' = Inr [root]" "full root" "sums_ok root"
        "weight root = sum_list (map weight ?ws')"
        "mset (leaves root) = (\<Sum>n \<in># mset ?ws'. mset (leaves n))"
      by auto
    have w: "sum_list (map weight ?ws') = sum_list (map weight ws)"
    proof -
      have "sum_list (map weight ws) = sum_mset (image_mset weight (mset ws))"
        by (metis mset_map sum_mset_sum_list)
      also have "\<dots> = weight l + weight r + sum_mset (image_mset weight (mset ws2))"
        by (simp add: m)
      also have "sum_mset (image_mset weight (mset ws2)) = sum_list (map weight ws2)"
        by (metis mset_map sum_mset_sum_list)
      finally show ?thesis by simp
    qed
    have lv: "(\<Sum>n \<in># mset ?ws'. mset (leaves n)) = (\<Sum>n \<in># mset ws. mset (leaves n))"
      by (simp add: m)
    show ?thesis using r e w lv by simp
  qed
qed

lemma createHuffmanTree_invariant:
  assumes "t \<noteq> []"
  shows "\<exists>root. createHuffmanTree t = Inr root \<and> full root \<and> sums_ok root \<and>
        weight root = sum_list (map fst t) \<and> mset (leaves root) = mset (map snd t)"
proof -
  let ?ws = "map (\<lambda>pair. Node (snd pair) (fst pair) None None) t"
  have "?ws \<noteq> []" using assms by simp
  moreover have "forest_ok ?ws" by (auto simp: forest_ok_def)
  ultimately obtain root where
    r: "createHuffmanTree_loop ?ws = Inr [root]" "full root" "sums_ok root"
       "weight root = sum_list (map weight ?ws)"
       "mset (leaves root) = (\<Sum>n \<in># mset ?ws. mset (leaves n))"
    using createHuffmanTree_loop_invariant by blast
  have w: "sum_list (map weight ?ws) = sum_list (map fst t)"
    by (simp add: comp_def)
  have l: "(\<Sum>n \<in># mset ?ws. mset (leaves n)) = mset (map snd t)"
    by (induction t) simp_all
  show ?thesis using r w l by (simp add: createHuffmanTree_def)
qed

text \<open>
  C6, as the code has it: each of the two extractions of an iteration of the merge loop
  removes and returns a node of least weight among the remaining nodes, the one at the
  last position among those tied for it; the other nodes keep their order, the first
  node extracted becomes the left child and the second the right child of the new node,
  which is appended at the end with the sum of the two weights.
\<close>

theorem createHuffmanTree_merge_step:
  assumes "1 < length ws"
  shows "\<exists>i j. last_minimum ws i \<and> extractMinimum ws = (Some (ws ! i), remove_at i ws) \<and>
           last_minimum (remove_at i ws) j \<and>
           extractMinimum (remove_at i ws) = (Some (remove_at i ws ! j), remove_at j (remove_at i ws)) \<and>
           createHuffmanTree_loop ws =
             createHuffmanTree_loop
               (remove_at j (remove_at i ws) @
                [Node CHR '' '' (weight (ws ! i) + weight (remove_at i ws ! j))
                   (Some (ws ! i)) (Some (remove_at i ws ! j))])"
  using merge_step [OF assms] .

theorem createHuffmanTree_merge_step_witness:
  "1 < length [Node CHR ''a'' 1 None None, Node CHR ''b'' 1 None None, Node CHR ''c'' 2 None None] \<and>
   (\<exists>i j. last_minimum [Node CHR ''a'' 1 None None, Node CHR ''b'' 1 None None, Node CHR ''c'' 2 None None] i \<and>
      last_minimum (remove_at i [Node CHR ''a'' 1 None None, Node CHR ''b'' 1 None None, Node CHR ''c'' 2 None None]) j)"
  using createHuffmanTree_merge_step
    [of "[Node CHR ''a'' 1 None None, Node CHR ''b'' 1 None None, Node CHR ''c'' 2 None None]"]
  by auto

text \<open>
  C6 as the claim states it fails where two nodes tie: of two leaves of weight 1, the
  extraction takes the second, not the first.
\<close>

theorem extractMinimum_tie_counterexample:
  "extractMinimum [Node CHR ''a'' 1 None None, Node CHR ''b'' 1 None None] =
     (Some (Node CHR ''b'' 1 None None), [Node CHR ''a'' 1 None None])"
  by (simp add: extractMinimum_def min_element_def isMinWeight_def remove_at_def)

text \<open>
  C10: for a non-empty text the weights of the frequency table sum to the length of the
  text, the tree is built, every node of it with two children weighs the sum of its
  children's weights, and the root weighs the length of the text.
\<close>

theorem createHuffmanTree_root_weight:
  "s \<noteq> [] \<Longrightarrow> sum_list (map fst (createFrequencyTable s)) = length s \<and>
     (\<exists>root. createHuffmanTree (createFrequencyTable s) = Inr root \<and> sums_ok root \<and>
        weight root = length s)"
  using createHuffmanTree_invariant [OF createFrequencyTable_nonempty, of s]
  by (auto simp: sum_createFrequencyTable)

theorem createHuffmanTree_root_weight_witness:
  "''abca'' \<noteq> [] \<and> sum_list (map fst (createFrequencyTable ''abca'')) = length ''abca'' \<and>
     (\<exists>root. createHuffmanTree (createFrequencyTable ''abca'') = Inr root \<and> sums_ok root \<and>
        weight root = length ''abca'')"
  using createHuffmanTree_root_weight [of "''abca''"] by simp

section \<open>Degenerate inputs\<close>

text \<open>
  C2: on the empty text the code raises no error of its own. The frequency table is
  empty, \<^verbatim>\<open>createHuffmanTree\<close> reads \<^verbatim>\<open>weights.back()\<close> of an empty list, and what
  follows is undefined.
\<close>

theorem createEncodingTable_empty: "createEncodingTable [] = Inl UndefinedBehaviour"
  by (simp add: createEncodingTable_def createHuffmanTree_def createFrequencyTable_def
      createHuffmanTree_loop_base)

lemma createFrequencyTable_replicate:
  "0 < n \<Longrightarrow> createFrequencyTable (replicate n c) = [(n, c)]"
proof -
  assume "0 < n"
  have s: "sort (replicate n c) = replicate n c"
    by (simp add: sort_key_id_if_sorted)
  have r: "remdups_adj (replicate n c) = [c]"
    using \<open>0 < n\<close> by (simp add: remdups_adj_replicate)
  have k: "count_list (replicate n c) c = n"
    by (induction n) simp_all
  show ?thesis
    by (simp add: createFrequencyTable_def s r k)
qed

lemma createEncodingTable_single:
  "0 < n \<Longrightarrow> createEncodingTable (replicate n c) = Inr [(c, [])]"
  by (simp add: createEncodingTable_def createFrequencyTable_replicate createHuffmanTree_def
      createHuffmanTree_loop_base createCodesLengthTable_def detail_createEncodingTable_def
      children_def visit_levels.simps)

text \<open>
  C3, as the code has it: for a text of \<open>n \<ge> 1\<close> repetitions of one symbol the table gives
  that symbol the empty codeword (the root is the only leaf, at depth 0), and \<^verbatim>\<open>encode\<close>
  of the text with that table throws \<^verbatim>\<open>std::invalid_argument\<close>.
\<close>

theorem single_symbol_table:
  "0 < n \<Longrightarrow> createEncodingTable (replicate n c) = Inr [(c, [])] \<and>
     encode (replicate n c) [(c, [])] = Some (Inl InvalidArgument)"
  by (simp add: createEncodingTable_single encode_def replaceSubstring_def)

theorem single_symbol_table_witness:
  "0 < (4::nat) \<and> createEncodingTable (replicate 4 CHR ''a'') = Inr [(CHR ''a'', [])] \<and>
     encode (replicate 4 CHR ''a'') [(CHR ''a'', [])] = Some (Inl InvalidArgument)"
  using single_symbol_table [of 4 "CHR ''a''"] by simp

text \<open>
  C3 as the claim states it fails on \<^verbatim>\<open>"aaaa"\<close>: the codeword of \<^verbatim>\<open>'a'\<close> has no bit, and
  encoding fails.
\<close>

theorem single_symbol_counterexample:
  "createEncodingTable ''aaaa'' = Inr [(CHR ''a'', [])] \<and>
   encode ''aaaa'' [(CHR ''a'', [])] = Some (Inl InvalidArgument)"
  using createEncodingTable_single [of 4 "CHR ''a''"]
  by (simp add: encode_def replaceSubstring_def numeral_eq_Suc)

text \<open>
  C8, as the code has it: \<^verbatim>\<open>encode\<close> of the empty text returns the empty bit sequence
  when the table is empty and throws \<^verbatim>\<open>std::invalid_argument\<close> when it is not (the first
  call of \<^verbatim>\<open>replaceSubstring\<close> refuses the empty string); \<^verbatim>\<open>decode\<close> of the empty bit
  sequence returns the empty text for every table.
\<close>

theorem empty_input:
  "encode [] T = (if T = [] then Some (Inr []) else Some (Inl InvalidArgument)) \<and> decode [] T = []"
  by (cases T) (simp_all add: encode_def replaceSubstring_def decode_def)

text \<open>C8 as the claim states it fails for a table with one codeword.\<close>

theorem encode_empty_counterexample:
  "encode [] [(CHR ''a'', ''0'')] = Some (Inl InvalidArgument)"
  by (simp add: encode_def replaceSubstring_def)

section \<open>Properties of encoding\<close>

lemma rep_simps [simp]:
  "rep k w [] = []"
  "rep k w (c # cs) = (if c = k then w else [c]) @ rep k w cs"
  "rep k w (xs @ ys) = rep k w xs @ rep k w ys"
  by (simp_all add: rep_def)

lemma rep_id: "k \<notin> set xs \<Longrightarrow> rep k w xs = xs"
  by (induction xs) auto

lemma str_find_skip:
  "k \<notin> set a \<Longrightarrow> str_find (pre @ a @ k # rest) [k] (length pre) = Some (length pre + length a)"
proof (induction a arbitrary: pre)
  case Nil
  then show ?case by (subst str_find.simps) simp
next
  case (Cons x a)
  have "str_find (pre @ (x # a) @ k # rest) [k] (length pre) =
        str_find ((pre @ [x]) @ a @ k # rest) [k] (length (pre @ [x]))"
    using Cons.prems by (subst str_find.simps) auto
  also have "\<dots> = Some (length (pre @ [x]) + length a)"
    using Cons.prems by (intro Cons.IH) simp
  finally show ?case by simp
qed

lemma str_find_none:
  "k \<notin> set a \<Longrightarrow> str_find (pre @ a) [k] (length pre) = None"
proof (induction a arbitrary: pre)
  case Nil
  then show ?case by (subst str_find.simps) simp
next
  case (Cons x a)
  have "str_find (pre @ x # a) [k] (length pre) =
        str_find ((pre @ [x]) @ a) [k] (length (pre @ [x]))"
    using Cons.prems by (subst str_find.simps) auto
  also have "\<dots> = None"
    using Cons.prems by (intro Cons.IH) simp
  finally show ?case by simp
qed

lemma replaceSubstring_loop_last:
  "str_find (str_replace str pos (length t) w) t pos = None \<Longrightarrow>
     replaceSubstring_loop str t w pos = Some (str_replace str pos (length t) w)"
  by (subst replaceSubstring_loop.simps) simp

lemma replaceSubstring_loop_next:
  "str_find (str_replace str pos (length t) w) t pos = Some pos' \<Longrightarrow>
     replaceSubstring_loop str t w pos =
     replaceSubstring_loop (str_replace str pos (length t) w) t w pos'"
  by (subst replaceSubstring_loop.simps) simp

lemma replaceSubstring_loop_char:
  "k \<notin> set w \<Longrightarrow>
     replaceSubstring_loop (pre @ k # rest) [k] w (length pre) = Some (pre @ w @ rep k w rest)"
proof (induction "length rest" arbitrary: pre rest rule: less_induct)
  case less
  have r: "str_replace (pre @ k # rest) (length pre) (length [k]) w = pre @ w @ rest"
    by (simp add: str_replace_def)
  show ?case
  proof (cases "k \<in> set rest")
    case False
    then have "k \<notin> set (w @ rest)" using less.prems by simp
    then have "str_find (pre @ w @ rest) [k] (length pre) = None"
      by (rule str_find_none)
    then have "replaceSubstring_loop (pre @ k # rest) [k] w (length pre) = Some (pre @ w @ rest)"
      using replaceSubstring_loop_last [of "pre @ k # rest" "length pre" "[k]" w]
      unfolding r by simp
    then show ?thesis using False by (simp add: rep_id)
  next
    case True
    then obtain a rest' where s: "rest = a @ k # rest'" "k \<notin> set a"
      by (meson split_list_first)
    then have "k \<notin> set (w @ a)" using less.prems by simp
    then have "str_find (pre @ (w @ a) @ k # rest') [k] (length pre) = Some (length pre + length (w @ a))"
      by (rule str_find_skip)
    then have f: "str_find (pre @ w @ rest) [k] (length pre) = Some (length (pre @ w @ a))"
      using s by simp
    have "length rest' < length rest" using s by simp
    from less.hyps [OF this less.prems, of "pre @ w @ a"]
    have i: "replaceSubstring_loop (pre @ w @ rest) [k] w (length (pre @ w @ a)) =
            Some (pre @ w @ a @ w @ rep k w rest')"
      using s by simp
    have "replaceSubstring_loop (pre @ k # rest) [k] w (length pre) =
          replaceSubstring_loop (pre @ w @ rest) [k] w (length (pre @ w @ a))"
      using replaceSubstring_loop_next [of "pre @ k # rest" "length pre" "[k]" w "length (pre @ w @ a)"] f
      unfolding r by simp
    also note i
    also have "pre @ w @ a @ w @ rep k w rest' = pre @ w @ rep k w rest"
      using s by (simp add: rep_id)
    finally show ?thesis .
  qed
qed

lemma replaceSubstring_char:
  assumes "k \<notin> set w" "w \<noteq> []" "str \<noteq> []"
  shows "replaceSubstring str [k] w = Some (Inr (rep k w str))"
proof (cases "k \<in> set str")
  case False
  then have "str_find ([] @ str) [k] (length ([] :: string)) = None"
    by (rule str_find_none)
  then show ?thesis using assms False by (simp add: replaceSubstring_def rep_id)
next
  case True
  then obtain a rest where s: "str = a @ k # rest" "k \<notin> set a"
    by (meson split_list_first)
  then have "str_find ([] @ a @ k # rest) [k] (length ([] :: string)) = Some (length ([] :: string) + length a)"
    by (intro str_find_skip)
  then have f: "str_find str [k] 0 = Some (length a)" using s by simp
  have "replaceSubstring_loop str [k] w (length a) = Some (a @ w @ rep k w rest)"
    using replaceSubstring_loop_char [OF assms(1), of a rest] s by simp
  then show ?thesis using assms f s by (simp add: replaceSubstring_def rep_id)
qed

lemma rep_nonempty: "w \<noteq> [] \<Longrightarrow> str \<noteq> [] \<Longrightarrow> rep k w str \<noteq> []"
  by (cases str) auto

lemma encode_loop_fold:
  "str \<noteq> [] \<Longrightarrow> \<forall>p \<in> set T. snd p \<noteq> [] \<and> fst p \<notin> set (snd p) \<Longrightarrow>
     encode_loop str T = Some (Inr (fold (\<lambda>p. rep (fst p) (snd p)) T str))"
proof (induction T arbitrary: str)
  case Nil
  then show ?case by simp
next
  case (Cons p T)
  have "replaceSubstring str [fst p] (snd p) = Some (Inr (rep (fst p) (snd p) str))"
    using Cons.prems by (intro replaceSubstring_char) auto
  moreover have "rep (fst p) (snd p) str \<noteq> []"
    using Cons.prems by (intro rep_nonempty) auto
  ultimately show ?case using Cons.IH [of "rep (fst p) (snd p) str"] Cons.prems by simp
qed

lemma fold_rep_append:
  "fold (\<lambda>p. rep (fst p) (snd p)) T (xs @ ys) =
     fold (\<lambda>p. rep (fst p) (snd p)) T xs @ fold (\<lambda>p. rep (fst p) (snd p)) T ys"
  by (induction T arbitrary: xs ys) simp_all

lemma fold_rep_Nil: "fold (\<lambda>p. rep (fst p) (snd p)) T [] = []"
  by (induction T) simp_all

lemma fold_rep_id:
  "\<forall>p \<in> set T. fst p \<notin> set xs \<Longrightarrow> fold (\<lambda>p. rep (fst p) (snd p)) T xs = xs"
  by (induction T arbitrary: xs) (simp_all add: rep_id)

lemma fold_rep_char:
  "distinct (map fst T) \<Longrightarrow> \<forall>p \<in> set T. \<forall>q \<in> set T. fst q \<notin> set (snd p) \<Longrightarrow>
     fold (\<lambda>p. rep (fst p) (snd p)) T [c] = substitute T c"
proof (induction T)
  case Nil
  then show ?case by (simp add: substitute_def)
next
  case (Cons p T)
  obtain k w where p: "p = (k, w)" by (cases p)
  show ?case
  proof (cases "c = k")
    case True
    have "fold (\<lambda>p. rep (fst p) (snd p)) T w = w"
      using Cons.prems(2) p by (intro fold_rep_id) auto
    then show ?thesis using True p by (simp add: substitute_def)
  next
    case False
    then show ?thesis using Cons p by (simp add: substitute_def)
  qed
qed

lemma fold_rep_map:
  assumes "distinct (map fst T)" "\<forall>p \<in> set T. \<forall>q \<in> set T. fst q \<notin> set (snd p)"
  shows "fold (\<lambda>p. rep (fst p) (snd p)) T str = concat (map (substitute T) str)"
proof (induction str)
  case Nil
  then show ?case by (simp add: fold_rep_Nil)
next
  case (Cons c str)
  have "fold (\<lambda>p. rep (fst p) (snd p)) T (c # str) =
        fold (\<lambda>p. rep (fst p) (snd p)) T ([c] @ str)" by simp
  also have "\<dots> = substitute T c @ fold (\<lambda>p. rep (fst p) (snd p)) T str"
    unfolding fold_rep_append using assms by (simp add: fold_rep_char)
  finally show ?case using Cons by simp
qed

lemma encode_substitutes:
  assumes "text \<noteq> []" "distinct (map fst T)"
    "\<forall>p \<in> set T. snd p \<noteq> [] \<and> (\<forall>q \<in> set T. fst q \<notin> set (snd p))"
  shows "encode text T = Some (Inr (concat (map (substitute T) text)))"
proof -
  have "encode text T = Some (Inr (fold (\<lambda>p. rep (fst p) (snd p)) T text))"
    unfolding encode_def using assms by (intro encode_loop_fold) auto
  then show ?thesis using assms by (simp add: fold_rep_map)
qed

text \<open>
  C7, as the code has it: \<^verbatim>\<open>encode\<close> never looks a symbol up and has no error for a
  symbol without a codeword. For a non-empty text and a table whose codewords are not
  empty and contain no symbol of the table, it returns the text with every symbol that
  has a codeword replaced by it and every other symbol left in place.
\<close>

theorem encode_keeps_unknown_symbols:
  assumes "text \<noteq> []" "distinct (map fst T)"
    "\<forall>p \<in> set T. snd p \<noteq> [] \<and> (\<forall>q \<in> set T. fst q \<notin> set (snd p))"
  shows "encode text T = Some (Inr (concat (map (substitute T) text))) \<and>
         (\<forall>c \<in> set text. c \<notin> fst ` set T \<longrightarrow> substitute T c = [c])"
proof -
  have "substitute T c = [c]" if "c \<notin> fst ` set T" for c
  proof -
    have "map_of T c = None" using that by (simp add: map_of_eq_None_iff)
    then show ?thesis by (simp add: substitute_def)
  qed
  then show ?thesis using encode_substitutes [OF assms] by simp
qed

theorem encode_keeps_unknown_symbols_witness:
  "''ab'' \<noteq> [] \<and> distinct (map fst [(CHR ''a'', ''0'')]) \<and>
   encode ''ab'' [(CHR ''a'', ''0'')] = Some (Inr (concat (map (substitute [(CHR ''a'', ''0'')]) ''ab''))) \<and>
   substitute [(CHR ''a'', ''0'')] CHR ''b'' = ''b''"
  using encode_keeps_unknown_symbols [of "''ab''" "[(CHR ''a'', ''0'')]"] by simp

text \<open>
  C7 as the claim states it fails on the text \<^verbatim>\<open>"ab"\<close> with a table that has a codeword
  for \<^verbatim>\<open>'a'\<close> only: \<^verbatim>\<open>encode\<close> returns \<^verbatim>\<open>"0b"\<close>.
\<close>

theorem encode_unknown_symbol_counterexample:
  "encode ''ab'' [(CHR ''a'', ''0'')] = Some (Inr ''0b'')"
  by code_simp

section \<open>Properties of decoding\<close>

lemma copyEncodings_snoc:
  "copyEncodings (T @ [p]) = (copyEncodings T)(snd p \<mapsto> fst p)"
  by (simp add: copyEncodings_def)

lemma copyEncodings_None: "copyEncodings T w = None \<longleftrightarrow> w \<notin> snd ` set T"
  by (induction T rule: rev_induct) (auto simp: copyEncodings_snoc copyEncodings_def)

lemma copyEncodings_Some:
  "distinct (map snd T) \<Longrightarrow> (k, w) \<in> set T \<Longrightarrow> copyEncodings T w = Some k"
proof (induction T rule: rev_induct)
  case Nil
  then show ?case by simp
next
  case (snoc p T)
  show ?case
  proof (cases "snd p = w")
    case True
    have "w \<notin> snd ` set T" using snoc.prems(1) True by simp
    then have "(k, w) \<notin> set T" by force
    then have "p = (k, w)" using snoc.prems(2) by simp
    then show ?thesis by (simp add: copyEncodings_snoc)
  next
    case False
    then have "(k, w) \<in> set T" using snoc.prems(2) by auto
    then show ?thesis using snoc.IH snoc.prems(1) False by (simp add: copyEncodings_snoc)
  qed
qed

lemma decode_loop_trace:
  "decode_loop m bits d c = (out, buf) \<Longrightarrow>
     (buf = c @ bits \<and> out = d) \<or> (\<exists>consumed. bits = consumed @ buf \<and> decode_loop m consumed d c = (out, []))"
proof (induction bits arbitrary: d c)
  case Nil
  then show ?case by simp
next
  case (Cons b bits)
  show ?case
  proof (cases "m (c @ [b])")
    case None
    with Cons.prems have "decode_loop m bits d (c @ [b]) = (out, buf)" by simp
    from Cons.IH [OF this] show ?thesis
    proof
      assume "buf = (c @ [b]) @ bits \<and> out = d"
      then show ?thesis by simp
    next
      assume "\<exists>consumed. bits = consumed @ buf \<and> decode_loop m consumed d (c @ [b]) = (out, [])"
      then obtain consumed where "bits = consumed @ buf" "decode_loop m consumed d (c @ [b]) = (out, [])"
        by blast
      then have "b # bits = (b # consumed) @ buf \<and> decode_loop m (b # consumed) d c = (out, [])"
        using None by simp
      then show ?thesis by blast
    qed
  next
    case (Some x)
    with Cons.prems have "decode_loop m bits (d @ [x]) [] = (out, buf)" by simp
    from Cons.IH [OF this] show ?thesis
    proof
      assume "buf = [] @ bits \<and> out = d @ [x]"
      then have "b # bits = [b] @ buf \<and> decode_loop m [b] d c = (out, [])"
        using Some by simp
      then show ?thesis by blast
    next
      assume "\<exists>consumed. bits = consumed @ buf \<and> decode_loop m consumed (d @ [x]) [] = (out, [])"
      then obtain consumed where "bits = consumed @ buf" "decode_loop m consumed (d @ [x]) [] = (out, [])"
        by blast
      then have "b # bits = (b # consumed) @ buf \<and> decode_loop m (b # consumed) d c = (out, [])"
        using Some by simp
      then show ?thesis by blast
    qed
  qed
qed

lemma decode_loop_buffer:
  "decode_loop m bits d c = (out, buf) \<Longrightarrow> buf \<noteq> [] \<Longrightarrow> (bits = [] \<and> buf = c) \<or> m buf = None"
proof (induction bits arbitrary: d c)
  case Nil
  then show ?case by simp
next
  case (Cons b bits)
  show ?case
  proof (cases "m (c @ [b])")
    case None
    with Cons.prems have "decode_loop m bits d (c @ [b]) = (out, buf)" by simp
    from Cons.IH [OF this Cons.prems(2)] None show ?thesis by auto
  next
    case (Some x)
    with Cons.prems have "decode_loop m bits (d @ [x]) [] = (out, buf)" by simp
    from Cons.IH [OF this Cons.prems(2)] Cons.prems(2) show ?thesis by auto
  qed
qed

text \<open>
  C4, as the code has it: \<^verbatim>\<open>decode\<close> has no error. When the bits end with a non-empty
  buffer, which then matches no codeword, \<^verbatim>\<open>decode\<close> returns the symbols decoded so far:
  the result is the decoding of the bits without that remainder.
\<close>

theorem decode_drops_remainder:
  assumes "decode_loop (copyEncodings T) bits [] [] = (out, buf)" "buf \<noteq> []"
  shows "decode bits T = out \<and> buf \<notin> snd ` set T \<and>
     (\<exists>consumed. bits = consumed @ buf \<and> decode consumed T = out)"
proof -
  have 1: "decode bits T = out" using assms by (simp add: decode_def)
  have 2: "buf \<notin> snd ` set T"
    using decode_loop_buffer [OF assms] assms(2) by (simp add: copyEncodings_None)
  from decode_loop_trace [OF assms(1)]
  have 3: "\<exists>consumed. bits = consumed @ buf \<and> decode consumed T = out"
  proof
    assume "buf = [] @ bits \<and> out = []"
    then have "bits = [] @ buf \<and> decode [] T = out" by (simp add: decode_def)
    then show ?thesis by blast
  next
    assume "\<exists>consumed. bits = consumed @ buf \<and> decode_loop (copyEncodings T) consumed [] [] = (out, [])"
    then show ?thesis by (auto simp: decode_def)
  qed
  show ?thesis using 1 2 3 by blast
qed

theorem decode_drops_remainder_witness:
  "decode_loop (copyEncodings [(CHR ''a'', ''11''), (CHR ''b'', ''0''), (CHR ''c'', ''10'')]) ''01'' [] []
     = (''b'', ''1'') \<and> ''1'' \<noteq> [] \<and>
   decode ''01'' [(CHR ''a'', ''11''), (CHR ''b'', ''0''), (CHR ''c'', ''10'')] = ''b'' \<and>
   ''1'' \<notin> snd ` set [(CHR ''a'', ''11''), (CHR ''b'', ''0''), (CHR ''c'', ''10'')] \<and>
   (\<exists>consumed. ''01'' = consumed @ ''1'' \<and>
      decode consumed [(CHR ''a'', ''11''), (CHR ''b'', ''0''), (CHR ''c'', ''10'')] = ''b'')"
proof -
  have h: "decode_loop (copyEncodings [(CHR ''a'', ''11''), (CHR ''b'', ''0''), (CHR ''c'', ''10'')]) ''01'' [] []
     = (''b'', ''1'')"
    by (simp add: copyEncodings_def)
  have n: "''1'' \<noteq> []" by simp
  show ?thesis using h n decode_drops_remainder [OF h n] by blast
qed

text \<open>
  C4 as the claim states it fails for the table of \<^verbatim>\<open>"aabbbcc"\<close>: \<^verbatim>\<open>"bc"\<close> encodes to
  \<^verbatim>\<open>"010"\<close>, and decoding \<^verbatim>\<open>"01"\<close>, which lacks the last bit, returns \<^verbatim>\<open>"b"\<close> with the
  bit \<^verbatim>\<open>'1'\<close> left in the buffer.
\<close>

theorem decode_truncated_counterexample:
  "decode_loop (copyEncodings [(CHR ''a'', ''11''), (CHR ''b'', ''0''), (CHR ''c'', ''10'')]) ''01'' [] []
     = (''b'', ''1'') \<and>
   decode ''01'' [(CHR ''a'', ''11''), (CHR ''b'', ''0''), (CHR ''c'', ''10'')] = ''b''"
  by (simp add: copyEncodings_def decode_def)

lemma decode_loop_codeword:
  assumes "m (w1 @ w2) = Some k" "w2 \<noteq> []"
    "\<forall>n. length w1 < n \<and> n < length (w1 @ w2) \<longrightarrow> m (take n (w1 @ w2)) = None"
  shows "decode_loop m (w2 @ rest) d w1 = decode_loop m rest (d @ [k]) []"
  using assms
proof (induction w2 arbitrary: w1)
  case Nil
  then show ?case by simp
next
  case (Cons b w2)
  show ?case
  proof (cases "w2 = []")
    case True
    then show ?thesis using Cons.prems by simp
  next
    case False
    have "length w1 < Suc (length w1) \<and> Suc (length w1) < length (w1 @ b # w2)"
      using False by simp
    then have "m (take (Suc (length w1)) (w1 @ b # w2)) = None"
      using Cons.prems(3) by blast
    then have n: "m (w1 @ [b]) = None" by simp
    have "decode_loop m (w2 @ rest) d (w1 @ [b]) = decode_loop m rest (d @ [k]) []"
    proof (rule Cons.IH)
      show "m ((w1 @ [b]) @ w2) = Some k" using Cons.prems by simp
      show "w2 \<noteq> []" by (rule False)
      show "\<forall>n. length (w1 @ [b]) < n \<and> n < length ((w1 @ [b]) @ w2) \<longrightarrow>
              m (take n ((w1 @ [b]) @ w2)) = None"
      proof (intro allI impI)
        fix n assume "length (w1 @ [b]) < n \<and> n < length ((w1 @ [b]) @ w2)"
        then have "length w1 < n \<and> n < length (w1 @ b # w2)" by simp
        then have "m (take n (w1 @ b # w2)) = None" using Cons.prems(3) by blast
        then show "m (take n ((w1 @ [b]) @ w2)) = None" by simp
      qed
    qed
    then show ?thesis using n by simp
  qed
qed

lemma decode_concat:
  assumes d: "distinct (map fst T)" and pf: "prefix_free T"
    and ne: "\<forall>p \<in> set T. snd p \<noteq> []" and s: "set s \<subseteq> fst ` set T"
  shows "decode (concat (map (substitute T) s)) T = s"
proof -
  have inj: "distinct (map snd T)"
  proof -
    have "inj_on snd (set T)"
    proof (rule inj_onI)
      fix p q assume pq: "p \<in> set T" "q \<in> set T" "snd p = snd q"
      then have "fst p = fst q" using pf unfolding prefix_free_def by (metis prefix_order.refl)
      then show "p = q" using pq by (simp add: prod_eq_iff)
    qed
    moreover have "distinct T" using d by (rule distinct_map [THEN iffD1, THEN conjunct1])
    ultimately show ?thesis by (simp add: distinct_map)
  qed
  have step: "decode_loop (copyEncodings T) (substitute T c @ rest) out [] =
              decode_loop (copyEncodings T) rest (out @ [c]) []"
    if c: "c \<in> fst ` set T" for c rest out
  proof -
    from c obtain w where w: "(c, w) \<in> set T" by auto
    then have sub: "substitute T c = w" using d by (simp add: substitute_def)
    have m: "copyEncodings T ([] @ w) = Some c" using inj w by (simp add: copyEncodings_Some)
    have wne: "w \<noteq> []" using ne w by auto
    have free: "\<forall>n. length ([] :: string) < n \<and> n < length ([] @ w) \<longrightarrow>
                  copyEncodings T (take n ([] @ w)) = None"
    proof (intro allI impI)
      fix n assume n: "length ([] :: string) < n \<and> n < length ([] @ w)"
      show "copyEncodings T (take n ([] @ w)) = None"
      proof (rule ccontr)
        assume "copyEncodings T (take n ([] @ w)) \<noteq> None"
        then have "take n w \<in> snd ` set T" by (simp add: copyEncodings_None)
        then obtain c' where c': "(c', take n w) \<in> set T" by auto
        have "length (take n w) < length w" using n by simp
        then have "take n w \<noteq> w" by auto
        then have "c' \<noteq> c" using c' w d by (metis eq_key_imp_eq_value)
        then have "\<not> prefix (take n w) w"
          using pf c' w unfolding prefix_free_def by fastforce
        then show False by (simp add: take_is_prefix)
      qed
    qed
    show ?thesis
      unfolding sub using decode_loop_codeword [OF m wne free, of rest out] by simp
  qed
  have "decode_loop (copyEncodings T) (concat (map (substitute T) s)) out [] = (out @ s, [])" for out
    using s
  proof (induction s arbitrary: out)
    case Nil
    then show ?case by simp
  next
    case (Cons c s)
    then show ?case using step [of c] by simp
  qed
  then show ?thesis by (simp add: decode_def)
qed

section \<open>Properties of the code lengths\<close>

lemma multimap_insert_last:
  "\<forall>p \<in> set t. fst p \<le> h \<Longrightarrow> multimap_insert (h, c) t = t @ [(h, c)]"
  by (induction t) auto

lemma foldl_level_entries:
  "\<forall>p \<in> set t. fst p \<le> h \<Longrightarrow>
     foldl (\<lambda>t n. if left n = None \<and> right n = None then multimap_insert (h, symbol n) t else t) t q
       = t @ level_entries h q"
proof (induction q arbitrary: t)
  case Nil
  then show ?case by (simp add: level_entries_def)
next
  case (Cons n q)
  show ?case
  proof (cases "is_leaf n")
    case True
    have "\<forall>p \<in> set (t @ [(h, symbol n)]). fst p \<le> h" using Cons.prems by auto
    from Cons.IH [OF this] show ?thesis
      using True Cons.prems by (simp add: multimap_insert_last level_entries_def is_leaf_def)
  next
    case False
    from Cons.IH [OF Cons.prems] show ?thesis
      using False by (auto simp: level_entries_def is_leaf_def)
  qed
qed

lemma visit_level_entries:
  "\<forall>p \<in> set t. fst p \<le> h \<Longrightarrow>
     visit_level h (length q) q t = Inr (concat (map children q), t @ level_entries h q)"
  using visit_level_whole [of h q "[]" t] by (simp add: foldl_level_entries)

lemma visit_levels_Nil: "visit_levels [] h t = Inr t"
  by (subst visit_levels.simps) simp

lemma visit_levels_step:
  "q \<noteq> [] \<Longrightarrow> \<forall>p \<in> set t. fst p \<le> h \<Longrightarrow>
     visit_levels q h t = visit_levels (concat (map children q)) (Suc h) (t @ level_entries h q)"
  by (subst visit_levels.simps) (simp add: visit_level_entries)

lemma full_children: "full n \<Longrightarrow> \<forall>c \<in> set (children n). full c"
  by (cases n) (auto simp: children_def split: option.splits)

lemma leaves_children:
  "full n \<Longrightarrow> mset (leaves n) = (if is_leaf n then {#symbol n#} else (\<Sum>c \<in># mset (children n). mset (leaves c)))"
  by (cases n) (auto simp: children_def is_leaf_def split: option.splits)

lemma length_children: "full n \<Longrightarrow> length (children n) = (if is_leaf n then 0 else 2)"
  by (cases n) (auto simp: children_def is_leaf_def split: option.splits)

lemma children_leaf: "is_leaf n \<Longrightarrow> children n = []"
  by (simp add: children_def is_leaf_def)

lemma fst_level_entries: "p \<in> set (level_entries h q) \<Longrightarrow> fst p = h"
  by (auto simp: level_entries_def)

lemma sorted_level_entries: "sorted (map fst (level_entries h q))"
  by (induction q) (auto simp: level_entries_def)

lemma level_leaves:
  "\<forall>n \<in> set q. full n \<Longrightarrow>
     (\<Sum>n \<in># mset q. mset (leaves n)) =
       mset (map snd (level_entries h q)) + (\<Sum>c \<in># mset (concat (map children q)). mset (leaves c))"
proof (induction q)
  case Nil
  then show ?case by (simp add: level_entries_def)
next
  case (Cons n q)
  then have "full n" by simp
  from leaves_children [OF this] Cons show ?case
    by (simp add: level_entries_def children_leaf)
qed

lemma level_length:
  "\<forall>n \<in> set q. full n \<Longrightarrow>
     length (concat (map children q)) + 2 * length (level_entries h q) = 2 * length q"
proof (induction q)
  case Nil
  then show ?case by (simp add: level_entries_def)
next
  case (Cons n q)
  then have "full n" by simp
  from length_children [OF this] Cons show ?case
    by (simp add: level_entries_def)
qed

lemma kraft_append: "kraft (a @ b) = kraft a + kraft b"
  by (simp add: kraft_def)

lemma kraft_level: "kraft (level_entries h q) = real (length (level_entries h q)) * (1 / 2) ^ h"
  by (induction q) (simp_all add: level_entries_def kraft_def algebra_simps)

lemma kraft_arith:
  assumes "real a + 2 * real b = 2 * real c"
  shows "real b * x + real a * (x / 2) = real c * x"
proof -
  have "real b * x + real a * (x / 2) = (real a + 2 * real b) * (x / 2)"
    by (simp add: algebra_simps)
  also have "\<dots> = real c * x" unfolding assms by simp
  finally show ?thesis .
qed

lemma visit_levels_table:
  "\<forall>n \<in> set q. full n \<Longrightarrow> \<forall>p \<in> set t. fst p \<le> h \<Longrightarrow>
     \<exists>tbl. visit_levels q h t = Inr (t @ tbl) \<and> sorted (map fst tbl) \<and>
        (\<forall>p \<in> set tbl. h \<le> fst p) \<and>
        mset (map snd tbl) = (\<Sum>n \<in># mset q. mset (leaves n)) \<and>
        kraft tbl = real (length q) * (1 / 2) ^ h"
proof (induction q h t rule: visit_levels.induct)
  case (1 queue height lengthsTable)
  show ?case
  proof (cases "queue = []")
    case True
    then show ?thesis by (simp add: visit_levels_Nil kraft_def)
  next
    case False
    let ?q = "concat (map children queue)"
    let ?e = "level_entries height queue"
    let ?t = "lengthsTable @ ?e"
    have v: "visit_level height (length queue) queue lengthsTable = Inr (?q, ?t)"
      using "1.prems"(2) by (rule visit_level_entries)
    have fq: "\<forall>n \<in> set ?q. full n"
      using "1.prems"(1) full_children by auto
    have kt: "\<forall>p \<in> set ?t. fst p \<le> Suc height"
      using "1.prems"(2) by (auto simp: level_entries_def)
    from "1.IH" [OF False v refl fq kt] obtain tbl where
      t: "visit_levels ?q (Suc height) ?t = Inr (?t @ tbl)" "sorted (map fst tbl)"
         "\<forall>p \<in> set tbl. Suc height \<le> fst p"
         "mset (map snd tbl) = (\<Sum>n \<in># mset ?q. mset (leaves n))"
         "kraft tbl = real (length ?q) * (1 / 2) ^ Suc height"
      by blast
    have 1: "visit_levels queue height lengthsTable = Inr (lengthsTable @ (?e @ tbl))"
      using visit_levels_step [OF False "1.prems"(2)] t(1) by simp
    have 2: "sorted (map fst (?e @ tbl))"
      using t(2,3) by (auto simp: sorted_append sorted_level_entries dest!: fst_level_entries)
    have 3: "\<forall>p \<in> set (?e @ tbl). height \<le> fst p"
      using t(3) by (auto dest!: fst_level_entries intro: Suc_leD)
    have 4: "mset (map snd (?e @ tbl)) = (\<Sum>n \<in># mset queue. mset (leaves n))"
      using level_leaves [OF "1.prems"(1), of height] t(4) by simp
    have "real (length ?q) + 2 * real (length ?e) = 2 * real (length queue)"
      using level_length [OF "1.prems"(1), of height] by (metis of_nat_add of_nat_mult of_nat_numeral)
    then have 5: "kraft (?e @ tbl) = real (length queue) * (1 / 2) ^ height"
      unfolding kraft_append kraft_level t(5) using kraft_arith by simp
    show ?thesis using 1 2 3 4 5 by blast
  qed
qed

lemma createCodesLengthTable_props:
  assumes "full tree"
  shows "\<exists>tbl. createCodesLengthTable tree = Inr tbl \<and> sorted (map fst tbl) \<and>
           mset (map snd tbl) = mset (leaves tree) \<and> kraft tbl = 1 \<and>
           (2 \<le> length (leaves tree) \<longrightarrow> (\<forall>p \<in> set tbl. 1 \<le> fst p))"
proof -
  have f: "\<forall>n \<in> set [tree]. full n" using assms by simp
  have e: "\<forall>p \<in> set ([] :: multimap). fst p \<le> 0" by simp
  from visit_levels_table [OF f e] obtain tbl where
    t: "visit_levels [tree] 0 [] = Inr tbl" "sorted (map fst tbl)"
       "mset (map snd tbl) = mset (leaves tree)" "kraft tbl = 1"
    by auto
  have "\<forall>p \<in> set tbl. 1 \<le> fst p" if "2 \<le> length (leaves tree)"
  proof -
    have nl: "\<not> is_leaf tree"
    proof
      assume "is_leaf tree"
      then have "leaves tree = [symbol tree]" by (cases tree) (simp add: is_leaf_def)
      with that show False by simp
    qed
    then have le: "level_entries 0 [tree] = []" by (simp add: level_entries_def)
    have "visit_levels [tree] 0 [] = visit_levels (concat (map children [tree])) (Suc 0) ([] @ level_entries 0 [tree])"
      by (rule visit_levels_step) simp_all
    then have v: "visit_levels [tree] 0 [] = visit_levels (children tree) (Suc 0) []"
      using le by simp
    have f': "\<forall>n \<in> set (children tree). full n" using assms by (rule full_children)
    have e': "\<forall>p \<in> set ([] :: multimap). fst p \<le> Suc 0" by simp
    from visit_levels_table [OF f' e'] obtain tbl' where
      "visit_levels (children tree) (Suc 0) [] = Inr tbl'" "\<forall>p \<in> set tbl'. Suc 0 \<le> fst p"
      by auto
    then show ?thesis using v t(1) by simp
  qed
  then show ?thesis using t by (auto simp: createCodesLengthTable_def)
qed

section \<open>Properties of the canonical code\<close>

lemma bval_Nil [simp]: "bval [] = 0"
  by (simp add: bval_def)

lemma bval_snoc [simp]: "bval (c @ [b]) = 2 * bval c + (if b = CHR ''0'' then 0 else 1)"
  by (simp add: bval_def)

lemma bval_append: "bval (xs @ ys) = bval xs * 2 ^ length ys + bval ys"
proof (induction ys rule: rev_induct)
  case Nil
  then show ?case by simp
next
  case (snoc y ys)
  have "bval (xs @ ys @ [y]) = bval ((xs @ ys) @ [y])" by simp
  also have "\<dots> = 2 * bval (xs @ ys) + (if y = CHR ''0'' then 0 else 1)" by (rule bval_snoc)
  finally show ?case using snoc by (simp add: algebra_simps)
qed

lemma bval_bound: "bval xs < 2 ^ length xs"
  by (induction xs rule: rev_induct) auto

lemma bval_zeros [simp]: "bval (replicate n CHR ''0'') = 0"
proof (induction n)
  case 0
  then show ?case by simp
next
  case (Suc n)
  have "replicate (Suc n) CHR ''0'' = replicate n CHR ''0'' @ [CHR ''0'']"
    by (simp add: replicate_append_same)
  then show ?case using Suc by (simp only: bval_snoc) simp
qed

lemma bval_ones: "\<forall>x \<in> set xs. x \<noteq> CHR ''0'' \<Longrightarrow> Suc (bval xs) = 2 ^ length xs"
  by (induction xs rule: rev_induct) auto

lemma increment_split:
  assumes "\<forall>x \<in> set ones. x \<noteq> CHR ''0''"
  shows "increment (p @ CHR ''0'' # ones) = p @ CHR ''1'' # replicate (length ones) CHR ''0''"
proof -
  let ?r = "rev (p @ CHR ''0'' # ones)"
  have r: "?r = rev ones @ CHR ''0'' # rev p" by simp
  have "takeWhile (\<lambda>c. c \<noteq> CHR ''0'') (rev ones @ CHR ''0'' # rev p) =
        rev ones @ takeWhile (\<lambda>c. c \<noteq> CHR ''0'') (CHR ''0'' # rev p)"
    by (rule takeWhile_append2) (use assms in auto)
  then have tw: "takeWhile (\<lambda>c. c \<noteq> CHR ''0'') ?r = rev ones"
    unfolding r by simp
  have flip0: "flip CHR ''0'' = CHR ''1''" by (simp add: flip_def)
  have fl: "map flip (rev ones) = replicate (length ones) CHR ''0''"
    using assms by (induction ones) (auto simp: flip_def replicate_append_same)
  have "increment (p @ CHR ''0'' # ones) =
        rev (map flip (take (Suc (length ones)) ?r) @ drop (Suc (length ones)) ?r)"
    unfolding increment_def Let_def tw by simp
  also have "take (Suc (length ones)) ?r = rev ones @ [CHR ''0'']" unfolding r by simp
  also have "drop (Suc (length ones)) ?r = rev p" unfolding r by simp
  finally show ?thesis using fl flip0 by simp
qed

lemma length_increment [simp]: "length (increment c) = length c"
  by (simp add: increment_def Let_def)

lemma set_increment: "set (increment c) \<subseteq> {CHR ''0'', CHR ''1''} \<union> set c"
proof
  fix x assume "x \<in> set (increment c)"
  then obtain k where "x \<in> set (map flip (take k (rev c))) \<union> set (drop k (rev c))"
    unfolding increment_def Let_def by (metis set_append set_rev)
  then show "x \<in> {CHR ''0'', CHR ''1''} \<union> set c"
  proof
    assume "x \<in> set (map flip (take k (rev c)))"
    then show ?thesis by (auto simp: flip_def)
  next
    assume "x \<in> set (drop k (rev c))"
    then have "x \<in> set (rev c)" by (rule in_set_dropD)
    then show ?thesis by simp
  qed
qed

lemma bval_increment:
  assumes "Suc (bval c) < 2 ^ length c"
  shows "bval (increment c) = Suc (bval c)"
proof -
  have "\<exists>x \<in> set c. x = CHR ''0''"
  proof (rule ccontr)
    assume "\<not> (\<exists>x \<in> set c. x = CHR ''0'')"
    then have "Suc (bval c) = 2 ^ length c" by (intro bval_ones) auto
    with assms show False by simp
  qed
  then have "CHR ''0'' \<in> set c" by simp
  then obtain p ones where s: "c = p @ CHR ''0'' # ones" "CHR ''0'' \<notin> set ones"
    by (meson split_list_last)
  then have o: "\<forall>x \<in> set ones. x \<noteq> CHR ''0''" by auto
  have a: "bval (increment c) = bval p * 2 ^ Suc (length ones) + bval (CHR ''1'' # replicate (length ones) CHR ''0'')"
    unfolding s(1) increment_split [OF o] by (simp add: bval_append)
  have b: "bval c = bval p * 2 ^ Suc (length ones) + bval (CHR ''0'' # ones)"
    unfolding s(1) by (simp add: bval_append)
  have c1: "bval (CHR ''1'' # replicate (length ones) CHR ''0'') = 2 ^ length ones"
    using bval_append [of "[CHR ''1'']" "replicate (length ones) CHR ''0''"]
      bval_snoc [of "[]" "CHR ''1''"] by simp
  have c0: "Suc (bval (CHR ''0'' # ones)) = 2 ^ length ones"
    using bval_append [of "[CHR ''0'']" ones] bval_snoc [of "[]" "CHR ''0''"] bval_ones [OF o]
    by simp
  show ?thesis using a b c0 c1 by simp
qed

lemma code_pos_pad [simp]: "code_pos (c @ replicate n CHR ''0'') = code_pos c"
  by (simp add: code_pos_def bval_append power_add)

lemma code_pos_zeros [simp]: "code_pos (replicate n CHR ''0'') = 0"
  by (simp add: code_pos_def)

lemma code_pos_increment:
  assumes "code_pos c + (1 / 2) ^ length c < 1"
  shows "code_pos (increment c) = code_pos c + (1 / 2) ^ length c"
proof -
  have "(real (bval c) + 1) / 2 ^ length c < 1"
    using assms by (simp add: code_pos_def power_one_over add_divide_distrib)
  then have "real (bval c) + 1 < 2 ^ length c" by simp
  then have "real (Suc (bval c)) < real (2 ^ length c)" by simp
  then have "Suc (bval c) < 2 ^ length c" by (simp only: of_nat_less_iff)
  from bval_increment [OF this] show ?thesis
    by (simp add: code_pos_def power_one_over add_divide_distrib)
qed

lemma prefix_code_pos:
  assumes "prefix c c'"
  shows "code_pos c \<le> code_pos c'" "code_pos c' < code_pos c + (1 / 2) ^ length c"
proof -
  from assms obtain r where r: "c' = c @ r" by (auto simp: prefix_def)
  have p: "code_pos c' = code_pos c + real (bval r) / 2 ^ length c'"
    unfolding r by (simp add: code_pos_def bval_append power_add add_divide_distrib)
  show "code_pos c \<le> code_pos c'" unfolding p by simp
  have "real (bval r) < 2 ^ length r" using bval_bound [of r]
    by (metis of_nat_less_iff of_nat_numeral of_nat_power)
  then have "real (bval r) / 2 ^ length c' < 2 ^ length r / 2 ^ length c'"
    by (simp add: divide_strict_right_mono)
  also have "\<dots> = (1 / 2) ^ length c"
    unfolding r by (simp add: power_add power_one_over)
  finally show "code_pos c' < code_pos c + (1 / 2) ^ length c" unfolding p by simp
qed

lemma kraft_nonneg: "0 \<le> kraft t"
  by (induction t) (simp_all add: kraft_def)

lemma kraft_Cons: "kraft (p # t) = (1 / 2) ^ fst p + kraft t"
  by (simp add: kraft_def)

lemma fst_codes_list: "map fst (codes_list code prev rest) = map snd rest"
  by (induction rest arbitrary: code prev) (simp_all add: Let_def)

lemma set_codes_list:
  "set code \<subseteq> {CHR ''0'', CHR ''1''} \<Longrightarrow>
     \<forall>q \<in> set (codes_list code prev rest). set (snd q) \<subseteq> {CHR ''0'', CHR ''1''}"
proof (induction rest arbitrary: code prev)
  case Nil
  then show ?case by simp
next
  case (Cons p rest)
  let ?c = "increment code @ replicate (fst p - prev) CHR ''0''"
  have "set ?c \<subseteq> {CHR ''0'', CHR ''1''}"
    using set_increment [of code] Cons.prems by auto
  from Cons.IH [OF this] this show ?case by (simp add: Let_def)
qed

lemma codes_list_before:
  assumes "length code = prev" "sorted (prev # map fst rest)"
    "code_pos code + (1 / 2) ^ prev + kraft rest \<le> 1"
  shows "sorted_wrt before (codes_list code prev rest) \<and>
         (\<forall>q \<in> set (codes_list code prev rest).
            code_pos code + (1 / 2) ^ prev \<le> code_pos (snd q) \<and> prev \<le> length (snd q))"
  using assms
proof (induction rest arbitrary: code prev)
  case Nil
  then show ?case by simp
next
  case (Cons p rest)
  let ?l = "fst p"
  let ?c = "increment code @ replicate (?l - prev) CHR ''0''"
  have le: "prev \<le> ?l" using Cons.prems(2) by simp
  have len: "length ?c = ?l" using Cons.prems(1) le by simp
  have srt: "sorted (?l # map fst rest)" using Cons.prems(2) by simp
  have pl: "(0::real) < (1 / 2) ^ ?l" by simp
  have "code_pos code + (1 / 2) ^ prev + ((1 / 2) ^ ?l + kraft rest) \<le> 1"
    using Cons.prems(3) by (simp add: kraft_Cons)
  then have "code_pos code + (1 / 2) ^ prev < 1"
    using pl kraft_nonneg [of rest] by linarith
  then have "code_pos code + (1 / 2) ^ length code < 1"
    unfolding Cons.prems(1) .
  then have "code_pos (increment code) = code_pos code + (1 / 2) ^ length code"
    by (rule code_pos_increment)
  then have pos: "code_pos ?c = code_pos code + (1 / 2) ^ prev"
    using Cons.prems(1) by simp
  have kr: "code_pos ?c + (1 / 2) ^ ?l + kraft rest \<le> 1"
    using Cons.prems(3) pos by (simp add: kraft_Cons)
  from Cons.IH [OF len srt kr]
  have ih: "sorted_wrt before (codes_list ?c ?l rest)"
    "\<forall>q \<in> set (codes_list ?c ?l rest). code_pos ?c + (1 / 2) ^ ?l \<le> code_pos (snd q) \<and> ?l \<le> length (snd q)"
    by simp_all
  have first: "\<forall>q \<in> set (codes_list ?c ?l rest). before (snd p, ?c) q"
    using ih(2) len by (simp add: before_def)
  have later: "\<forall>q \<in> set (codes_list ?c ?l rest).
      code_pos code + (1 / 2) ^ prev \<le> code_pos (snd q) \<and> prev \<le> length (snd q)"
  proof
    fix q assume "q \<in> set (codes_list ?c ?l rest)"
    then have "code_pos ?c + (1 / 2) ^ ?l \<le> code_pos (snd q)" "?l \<le> length (snd q)"
      using ih(2) by auto
    then show "code_pos code + (1 / 2) ^ prev \<le> code_pos (snd q) \<and> prev \<le> length (snd q)"
      using pl le unfolding pos by linarith
  qed
  show ?case using ih(1) first later pos le len by (simp add: Let_def)
qed

lemma sorted_wrt_pair:
  "sorted_wrt R xs \<Longrightarrow> x \<in> set xs \<Longrightarrow> y \<in> set xs \<Longrightarrow> x \<noteq> y \<Longrightarrow> R x y \<or> R y x"
  by (induction xs) auto

lemma before_prefix_free:
  assumes "sorted_wrt before L" "p \<in> set L" "q \<in> set L" "p \<noteq> q"
  shows "\<not> prefix (snd p) (snd q)"
proof
  assume pr: "prefix (snd p) (snd q)"
  from sorted_wrt_pair [OF assms] show False
  proof
    assume "before p q"
    then show False using prefix_code_pos(2) [OF pr] by (simp add: before_def)
  next
    assume b: "before q p"
    then have "length (snd q) \<le> length (snd p)" by (simp add: before_def)
    moreover have "length (snd p) \<le> length (snd q)" using pr by (rule prefix_length_le)
    ultimately have e: "snd p = snd q" using pr by (auto simp: prefix_def)
    have w: "(0::real) < (1 / 2) ^ length (snd q)" by simp
    have "code_pos (snd q) + (1 / 2) ^ length (snd q) \<le> code_pos (snd q)"
      using b unfolding before_def e by simp
    with w show False by linarith
  qed
qed

lemma assign_codes_foldl:
  "assign_codes code prev rest tab =
     foldl (\<lambda>tab q. map_assign (fst q) (snd q) tab) tab (codes_list code prev rest)"
  by (induction rest arbitrary: code prev tab) (simp_all add: Let_def)

lemma keys_map_assign: "fst ` set (map_assign k v m) = insert k (fst ` set m)"
  by (induction m) auto

lemma set_map_assign:
  "k \<notin> fst ` set m \<Longrightarrow> set (map_assign k v m) = insert (k, v) (set m)"
  by (induction m) auto

lemma sorted_map_assign:
  "sorted_wrt (<) (map fst m) \<Longrightarrow> sorted_wrt (<) (map fst (map_assign k v m))"
proof (induction m)
  case Nil
  then show ?case by simp
next
  case (Cons p m)
  then have ih: "sorted_wrt (<) (map fst (map_assign k v m))" by simp
  have tl: "\<forall>x \<in> fst ` set m. fst p < x" "sorted_wrt (<) (map fst m)"
    using Cons.prems by auto
  consider "k < fst p" | "k = fst p" | "fst p < k" by (meson less_linear)
  then show ?case
  proof cases
    case 1
    then have "\<forall>x \<in> fst ` set m. k < x" using tl(1) by auto
    then show ?thesis using 1 tl by auto
  next
    case 2
    then show ?thesis using tl by auto
  next
    case 3
    have "\<forall>x \<in> fst ` set (map_assign k v m). fst p < x"
      unfolding keys_map_assign using 3 tl(1) by auto
    then show ?thesis using 3 ih by auto
  qed
qed

lemma foldl_map_assign:
  "distinct (map fst L) \<Longrightarrow> fst ` set L \<inter> fst ` set tab = {} \<Longrightarrow> sorted_wrt (<) (map fst tab) \<Longrightarrow>
     set (foldl (\<lambda>tab q. map_assign (fst q) (snd q) tab) tab L) = set tab \<union> set L \<and>
     sorted_wrt (<) (map fst (foldl (\<lambda>tab q. map_assign (fst q) (snd q) tab) tab L))"
proof (induction L arbitrary: tab)
  case Nil
  then show ?case by simp
next
  case (Cons q L)
  let ?tab = "map_assign (fst q) (snd q) tab"
  have n: "fst q \<notin> fst ` set tab" using Cons.prems(2) by auto
  have s: "set ?tab = insert q (set tab)" using set_map_assign [OF n, of "snd q"] by simp
  have "distinct (map fst L)" using Cons.prems(1) by simp
  moreover have "fst ` set L \<inter> fst ` set ?tab = {}"
    using Cons.prems(1,2) unfolding keys_map_assign by auto
  moreover have "sorted_wrt (<) (map fst ?tab)"
    using Cons.prems(3) by (rule sorted_map_assign)
  ultimately show ?case using Cons.IH [of ?tab] s by simp
qed

lemma detail_createEncodingTable_props:
  assumes "sorted (map fst (p0 # rest))" "kraft (p0 # rest) \<le> 1" "distinct (map snd (p0 # rest))"
  shows "\<exists>T. detail_createEncodingTable (p0 # rest) = Inr T \<and> prefix_free T \<and>
           sorted_wrt (<) (map fst T) \<and> fst ` set T = snd ` set (p0 # rest) \<and>
           (\<forall>q \<in> set T. binary (snd q) \<and> fst p0 \<le> length (snd q))"
proof -
  let ?c = "replicate (fst p0) CHR ''0''"
  let ?L = "(snd p0, ?c) # codes_list ?c (fst p0) rest"
  let ?T = "foldl (\<lambda>tab q. map_assign (fst q) (snd q) tab) [] ?L"
  have T: "detail_createEncodingTable (p0 # rest) = Inr ?T"
    by (simp add: detail_createEncodingTable_def Let_def assign_codes_foldl)
  have keys: "map fst ?L = map snd (p0 # rest)"
    by (simp add: fst_codes_list)
  then have dL: "distinct (map fst ?L)" using assms(3) by (simp only:)
  have "fst ` set ?L \<inter> fst ` set ([] :: encodings) = {}" by simp
  moreover have "sorted_wrt (<) (map fst ([] :: encodings))" by simp
  ultimately have f: "set ?T = set ([] :: encodings) \<union> set ?L" "sorted_wrt (<) (map fst ?T)"
    using foldl_map_assign [OF dL, of "[]"] by blast+
  then have sT: "set ?T = set ?L" by simp
  have len: "length ?c = fst p0" by simp
  have srt: "sorted (fst p0 # map fst rest)" using assms(1) by simp
  have kr: "code_pos ?c + (1 / 2) ^ fst p0 + kraft rest \<le> 1"
    using assms(2) by (simp add: kraft_Cons)
  from codes_list_before [OF len srt kr]
  have tail: "sorted_wrt before (codes_list ?c (fst p0) rest)"
    "\<forall>q \<in> set (codes_list ?c (fst p0) rest).
        code_pos ?c + (1 / 2) ^ fst p0 \<le> code_pos (snd q) \<and> fst p0 \<le> length (snd q)"
    by simp_all
  have bL: "sorted_wrt before ?L"
    using tail by (simp add: before_def)
  have pf: "prefix_free ?T"
    unfolding prefix_free_def sT
  proof (intro ballI impI)
    fix p q assume "p \<in> set ?L" "q \<in> set ?L" "fst p \<noteq> fst q"
    then have "p \<noteq> q" by auto
    with bL \<open>p \<in> set ?L\<close> \<open>q \<in> set ?L\<close> show "\<not> prefix (snd p) (snd q)"
      by (rule before_prefix_free)
  qed
  have "set ?c \<subseteq> {CHR ''0'', CHR ''1''}" by auto
  then have bin: "\<forall>q \<in> set ?L. binary (snd q)"
    using set_codes_list [of ?c "fst p0" rest] by (simp add: binary_def)
  have lens: "\<forall>q \<in> set ?L. fst p0 \<le> length (snd q)"
    using tail(2) by simp
  have k: "fst ` set ?T = snd ` set (p0 # rest)"
    unfolding sT using keys by (metis set_map)
  have fin: "\<forall>q \<in> set ?T. binary (snd q) \<and> fst p0 \<le> length (snd q)"
    unfolding sT using bin lens by blast
  show ?thesis
    by (intro exI [of _ ?T] conjI) (rule T pf f(2) k fin)+
qed

lemma createEncodingTable_props:
  assumes "s \<noteq> []"
  shows "\<exists>T. createEncodingTable s = Inr T \<and> prefix_free T \<and> distinct (map fst T) \<and>
           fst ` set T = set s \<and> (\<forall>q \<in> set T. binary (snd q)) \<and>
           (2 \<le> card (set s) \<longrightarrow> (\<forall>q \<in> set T. snd q \<noteq> []))"
proof -
  let ?f = "createFrequencyTable s"
  have fne: "?f \<noteq> []" using assms by (rule createFrequencyTable_nonempty)
  from createHuffmanTree_invariant [OF fne] obtain root where
    r: "createHuffmanTree ?f = Inr root" "full root" "mset (leaves root) = mset (map snd ?f)"
    by blast
  from createCodesLengthTable_props [OF r(2)] obtain tbl where
    t: "createCodesLengthTable root = Inr tbl" "sorted (map fst tbl)"
       "mset (map snd tbl) = mset (leaves root)" "kraft tbl = 1"
       "2 \<le> length (leaves root) \<longrightarrow> (\<forall>p \<in> set tbl. 1 \<le> fst p)"
    by blast
  have syms: "mset (map snd tbl) = mset (map snd ?f)" using t(3) r(3) by simp
  have d: "distinct (map snd tbl)"
    using syms distinct_symbols_createFrequencyTable [of s] by (metis mset_eq_imp_distinct_iff)
  have ss: "snd ` set tbl = set s"
    using syms set_symbols_createFrequencyTable [of s] by (metis mset_eq_setD set_map)
  have "tbl \<noteq> []" using ss assms by auto
  then obtain p0 rest where pr: "tbl = p0 # rest" by (cases tbl) auto
  have k: "kraft (p0 # rest) \<le> 1" using t(4) pr by simp
  have "sorted (map fst (p0 # rest))" "distinct (map snd (p0 # rest))"
    using t(2) d unfolding pr by simp_all
  from detail_createEncodingTable_props [OF this(1) k this(2)] obtain T where
    T: "detail_createEncodingTable (p0 # rest) = Inr T" "prefix_free T" "sorted_wrt (<) (map fst T)"
       "fst ` set T = snd ` set (p0 # rest)" "\<forall>q \<in> set T. binary (snd q) \<and> fst p0 \<le> length (snd q)"
    by (elim exE conjE)
  have c: "createEncodingTable s = Inr T"
    using T(1) by (simp add: createEncodingTable_def r(1) t(1) pr)
  have kT: "fst ` set T = set s" using T(4) ss unfolding pr by simp
  have bT: "\<forall>q \<in> set T. binary (snd q)" using T(5) by blast
  have dT: "distinct (map fst T)" using T(3) by (simp add: strict_sorted_iff)
  have ne: "\<forall>q \<in> set T. snd q \<noteq> []" if "2 \<le> card (set s)"
  proof -
    have "length (leaves root) = length (map snd ?f)"
      using r(3) by (metis size_mset)
    also have "\<dots> = card (set (map snd ?f))"
      using distinct_card [OF distinct_symbols_createFrequencyTable [of s]] by simp
    also have "\<dots> = card (set s)" by (simp only: set_symbols_createFrequencyTable)
    finally have "2 \<le> length (leaves root)" using that by simp
    then have "1 \<le> fst p0" using t(5) pr by simp
    show ?thesis
    proof
      fix q assume "q \<in> set T"
      then have "fst p0 \<le> length (snd q)" using T(5) by blast
      with \<open>1 \<le> fst p0\<close> show "snd q \<noteq> []" by auto
    qed
  qed
  then have ne': "2 \<le> card (set s) \<longrightarrow> (\<forall>q \<in> set T. snd q \<noteq> [])" by blast
  show ?thesis
    by (intro exI [of _ T] conjI) (rule c T(2) dT kT bT ne')+
qed

text \<open>
  C5: for every non-empty text the table is built, it has exactly one codeword for each
  symbol of the text, and for every two distinct symbols of it neither codeword is a
  prefix of the other.
\<close>

theorem createEncodingTable_prefix_free:
  assumes "s \<noteq> []"
  shows "\<exists>T. createEncodingTable s = Inr T \<and> fst ` set T = set s \<and> distinct (map fst T) \<and>
           (\<forall>p \<in> set T. \<forall>q \<in> set T. fst p \<noteq> fst q \<longrightarrow> \<not> prefix (snd p) (snd q))"
proof -
  from createEncodingTable_props [OF assms] obtain T where
    "createEncodingTable s = Inr T" "fst ` set T = set s" "distinct (map fst T)" "prefix_free T"
    by (elim exE conjE)
  then show ?thesis unfolding prefix_free_def by (intro exI [of _ T] conjI)
qed

theorem createEncodingTable_prefix_free_witness:
  "''aabbbcc'' \<noteq> [] \<and>
   createEncodingTable ''aabbbcc'' = Inr [(CHR ''a'', ''11''), (CHR ''b'', ''0''), (CHR ''c'', ''10'')] \<and>
   prefix_free [(CHR ''a'', ''11''), (CHR ''b'', ''0''), (CHR ''c'', ''10'')]"
proof -
  have e: "createEncodingTable ''aabbbcc'' =
             Inr [(CHR ''a'', ''11''), (CHR ''b'', ''0''), (CHR ''c'', ''10'')]"
    by code_simp
  have n: "''aabbbcc'' \<noteq> []" by simp
  from createEncodingTable_prefix_free [OF n] e
  have "prefix_free [(CHR ''a'', ''11''), (CHR ''b'', ''0''), (CHR ''c'', ''10'')]"
    unfolding prefix_free_def by simp
  with e n show ?thesis by (intro conjI)
qed

section \<open>Round trip\<close>

text \<open>
  C1, as the code has it: for every text with at least two distinct symbols and with
  neither the character \<^verbatim>\<open>'0'\<close> nor the character \<^verbatim>\<open>'1'\<close> in it, the table is built,
  \<^verbatim>\<open>encode\<close> returns a bit sequence, and \<^verbatim>\<open>decode\<close> of that bit sequence is the text.
\<close>

theorem encode_decode_roundtrip:
  assumes "2 \<le> card (set s)" "CHR ''0'' \<notin> set s" "CHR ''1'' \<notin> set s"
  shows "\<exists>T bits. createEncodingTable s = Inr T \<and> encode s T = Some (Inr bits) \<and>
           decode bits T = s"
proof -
  have ne: "s \<noteq> []" using assms(1) by auto
  from createEncodingTable_props [OF ne] obtain T where
    T: "createEncodingTable s = Inr T" "prefix_free T" "distinct (map fst T)"
       "fst ` set T = set s" "\<forall>q \<in> set T. binary (snd q)"
       "2 \<le> card (set s) \<longrightarrow> (\<forall>q \<in> set T. snd q \<noteq> [])"
    by (elim exE conjE)
  have cw: "\<forall>q \<in> set T. snd q \<noteq> []" using T(6) assms(1) by blast
  have keys: "\<forall>p \<in> set T. snd p \<noteq> [] \<and> (\<forall>q \<in> set T. fst q \<notin> set (snd p))"
  proof (intro ballI conjI)
    fix p assume p: "p \<in> set T"
    then show "snd p \<noteq> []" using cw by blast
    fix q assume "q \<in> set T"
    then have "fst q \<in> set s" using T(4) by auto
    then have "fst q \<noteq> CHR ''0''" "fst q \<noteq> CHR ''1''" using assms(2,3) by auto
    moreover have "set (snd p) \<subseteq> {CHR ''0'', CHR ''1''}" using T(5) p by (simp add: binary_def)
    ultimately show "fst q \<notin> set (snd p)" by auto
  qed
  have e: "encode s T = Some (Inr (concat (map (substitute T) s)))"
    using ne T(3) keys by (rule encode_substitutes)
  have "set s \<subseteq> fst ` set T" using T(4) by simp
  with T(3) T(2) cw have d: "decode (concat (map (substitute T) s)) T = s"
    by (rule decode_concat)
  show ?thesis
    by (intro exI [of _ T] exI [of _ "concat (map (substitute T) s)"] conjI) (rule T(1) e d)+
qed

theorem encode_decode_roundtrip_witness:
  "2 \<le> card (set ''aabbbcc'') \<and> CHR ''0'' \<notin> set ''aabbbcc'' \<and> CHR ''1'' \<notin> set ''aabbbcc'' \<and>
   (\<exists>T bits. createEncodingTable ''aabbbcc'' = Inr T \<and> encode ''aabbbcc'' T = Some (Inr bits) \<and>
      decode bits T = ''aabbbcc'')"
proof -
  have c: "2 \<le> card (set ''aabbbcc'')" by (simp add: card_insert_if)
  have z: "CHR ''0'' \<notin> set ''aabbbcc''" by simp
  have o: "CHR ''1'' \<notin> set ''aabbbcc''" by simp
  show ?thesis using c z o encode_decode_roundtrip [OF c z o] by (intro conjI)
qed

text \<open>
  C1 as the claim states it fails on the two-character text of a space and \<^verbatim>\<open>'1'\<close>: the
  table gives the space the codeword \<^verbatim>\<open>"1"\<close> and \<^verbatim>\<open>'1'\<close> the codeword \<^verbatim>\<open>"0"\<close>, the second
  replacement of \<^verbatim>\<open>encode\<close> rewrites the bit that the first one produced, and decoding
  the result gives \<^verbatim>\<open>"11"\<close>.
\<close>

theorem encode_decode_roundtrip_counterexample:
  "createEncodingTable '' 1'' = Inr [(CHR '' '', ''1''), (CHR ''1'', ''0'')] \<and>
   encode '' 1'' [(CHR '' '', ''1''), (CHR ''1'', ''0'')] = Some (Inr ''00'') \<and>
   decode ''00'' [(CHR '' '', ''1''), (CHR ''1'', ''0'')] = ''11''"
  by code_simp

text \<open>
  A text with a bit character need not even be encoded: for \<^verbatim>\<open>"1a"\<close> the table gives
  \<^verbatim>\<open>'1'\<close> the codeword \<^verbatim>\<open>"1"\<close>, the replacement of \<^verbatim>\<open>"1"\<close> by \<^verbatim>\<open>"1"\<close> leaves the string
  as it is, the search finds the same position again, and \<^verbatim>\<open>encode\<close> does not return.
\<close>

lemma replaceSubstring_loop_same:
  assumes "str_find (str_replace str pos (length t) w) t pos = Some pos"
    "str_replace str pos (length t) w = str"
  shows "replaceSubstring_loop str t w pos = None"
proof (rule ccontr)
  assume "replaceSubstring_loop str t w pos \<noteq> None"
  then obtain y where y: "replaceSubstring_loop str t w pos = Some y" by auto
  have "\<not> (a = str \<and> b = t \<and> c = w \<and> d = pos)"
    if "replaceSubstring_loop a b c d = Some z" for a b c d z
  proof (rule replaceSubstring_loop.raw_induct
      [where P = "\<lambda>a b c d z. \<not> (a = str \<and> b = t \<and> c = w \<and> d = pos)", OF _ that])
    fix f a b c d z
    assume ih: "\<And>a b c d z. f a b c d = Some z \<Longrightarrow> \<not> (a = str \<and> b = t \<and> c = w \<and> d = pos)"
      and st: "(case str_find (str_replace a d (length b) c) b d of
                  None \<Rightarrow> Some (str_replace a d (length b) c)
                | Some pos' \<Rightarrow> f (str_replace a d (length b) c) b c pos') = Some z"
    show "\<not> (a = str \<and> b = t \<and> c = w \<and> d = pos)"
    proof
      assume "a = str \<and> b = t \<and> c = w \<and> d = pos"
      then have "f str t w pos = Some z" using st assms by simp
      from ih [OF this] show False by simp
    qed
  qed
  from this [OF y] show False by simp
qed

lemma encode_diverges_example:
  "createEncodingTable ''1a'' = Inr [(CHR ''1'', ''1''), (CHR ''a'', ''0'')] \<and>
   encode ''1a'' [(CHR ''1'', ''1''), (CHR ''a'', ''0'')] = None"
proof -
  have t: "createEncodingTable ''1a'' = Inr [(CHR ''1'', ''1''), (CHR ''a'', ''0'')]"
    by code_simp
  have f: "str_find ''1a'' ''1'' 0 = Some 0" by code_simp
  have r: "str_replace ''1a'' 0 (length ''1'') ''1'' = ''1a''" by (simp add: str_replace_def)
  have "replaceSubstring_loop ''1a'' ''1'' ''1'' 0 = None"
    by (rule replaceSubstring_loop_same) (simp_all only: r f)
  then have "encode ''1a'' [(CHR ''1'', ''1''), (CHR ''a'', ''0'')] = None"
    using f by (simp add: encode_def replaceSubstring_def)
  with t show ?thesis by (intro conjI)
qed

end
